theory Spec2Isabelle
  imports Complex_Main "HOL-Library.AList"
begin

section \<open>The karl2d audio engine (box2d-platformer/audio.js)\<close>

text \<open>
  The engine object \<open>karl2dAudio\<close> is a record of its fields; every method takes the engine
  and returns the updated engine (and the method's return value, when it has one).
  JavaScript numbers that carry times, gains and coordinates are modelled as exact real
  numbers (the rounding of IEEE doubles is not modelled); the one place where a
  not-a-number can arise from finite inputs, the remainder by a zero duration, is kept
  as a value of its own. Handles are the non-negative integers the counters produce.

  The Web Audio host is modelled as far as the engine drives it: a heap of nodes with the
  parameters the engine writes, the list of connections, the context clock, the pending
  timeouts and the decodes in flight. The host operations are total, as in the boundary
  contract of the specification (section 6): the \<open>try\<close>/\<open>catch\<close> blocks of the source guard
  host exceptions that this contract does not describe, so their \<open>catch\<close> branches are not
  reached in the model. The model covers an engine whose audio context is open (the phase
  between \<open>init\<close> and \<open>shutdown\<close>).
\<close>

subsection \<open>JavaScript numbers\<close>

datatype jsnum = Number real | NaN

text \<open>The \<open>%\<close> operator on finite numbers: the remainder of the division truncated towards
  zero, so the result takes the sign of the dividend; a zero divisor gives \<open>NaN\<close>.\<close>

definition js_trunc :: "real \<Rightarrow> int" where
  "js_trunc r = (if 0 \<le> r then \<lfloor>r\<rfloor> else \<lceil>r\<rceil>)"

definition js_rem :: "real \<Rightarrow> real \<Rightarrow> jsnum" where
  "js_rem x d = (if d = 0 then NaN else Number (x - d * of_int (js_trunc (x / d))))"

subsection \<open>Data\<close>

text \<open>An entry of \<open>sources\<close>: \<open>{ buffer, duration }\<close>. The decoded buffer is opaque.\<close>

record source =
  buffer :: nat
  duration :: real

text \<open>An entry of \<open>buses\<close>: \<open>{ gainNode, volume, muted }\<close>.\<close>

record bus =
  b_gainNode :: nat
  b_volume :: real
  b_muted :: bool

text \<open>The instance object built by \<open>playAudioInternal\<close>. Nodes are referred to by their
  identity in the host's node heap; \<open>null\<close> is \<open>None\<close>.\<close>

record audio_instance =
  sourceHandle :: nat
  sourceNode :: nat
  gainNode :: nat
  pannerNode :: "nat option"
  spatialPanner :: "nat option"
  outputNode :: nat
  busHandle :: nat
  startTime :: real
  pauseTime :: real
  paused :: bool
  stopped :: bool
  loop :: bool
  volume :: real
  pitch :: real
  hasCallback :: bool

text \<open>The parameter object handed to \<open>playAudioInternal\<close>; an entry of \<open>pendingPlays\<close> is the
  same object with its \<open>retries\<close> counter (0 when the object is built).\<close>

record play_params =
  p_handle :: nat
  p_sourceHandle :: nat
  p_busHandle :: nat
  p_volume :: real
  p_pan :: real
  p_pitch :: real
  p_loop :: bool
  p_delay :: real
  p_isSpatial :: bool
  p_posX :: real
  p_posY :: real
  p_minDistance :: real
  p_maxDistance :: real
  p_hasCallback :: bool
  p_retries :: nat

text \<open>Host nodes. A buffer source node carries what the engine sets on it, the arguments
  of its \<open>start\<close> call, whether \<open>stop\<close> was called, whether its \<open>ended\<close> notification was
  delivered, and its \<open>onended\<close> closure: the closures of the source capture the instance
  object and the handle, so the closure is that pair.\<close>

record source_node =
  n_buffer :: "nat option"
  n_loop :: bool
  n_playbackRate :: real
  n_onended :: "(nat \<times> nat) option"
  n_started :: "(real \<times> real) option"
  n_stopCalled :: bool
  n_ended :: bool

record panner_node =
  pn_panningModel :: string
  pn_distanceModel :: string
  pn_refDistance :: real
  pn_maxDistance :: real
  pn_rolloffFactor :: real
  pn_position :: "real \<times> real \<times> real"

datatype node_kind = BufferSource | Gain | StereoPanner | Panner | Destination

text \<open>The engine together with the host state it drives. \<open>instances\<close> is a JavaScript
  \<open>Map\<close> that the engine iterates, so it is an association list in insertion order from
  handles to instance objects; the objects live in \<open>objs\<close>, because closures keep an object
  alive and read it after its entry has been deleted from the map.\<close>

record engine =
  initialized :: bool
  nextSourceHandle :: nat
  nextInstanceHandle :: nat
  nextBusHandle :: nat
  sources :: "nat \<rightharpoonup> source"
  instances :: "(nat \<times> nat) list"
  buses :: "nat \<rightharpoonup> bus"
  finishedCallbacks :: "nat list"
  pendingPlays :: "play_params list"
  listenerX :: real
  listenerY :: real
  masterGain :: nat
  currentTime :: real
  objs :: "nat \<Rightarrow> audio_instance"
  nextObj :: nat
  nextNode :: nat
  nodeKind :: "nat \<rightharpoonup> node_kind"
  sourceNodes :: "nat \<Rightarrow> source_node"
  gainValue :: "nat \<Rightarrow> real"
  panValue :: "nat \<Rightarrow> real"
  pannerNodes :: "nat \<Rightarrow> panner_node"
  connections :: "(nat \<times> nat) list"
  listenerPosition :: "real \<times> real \<times> real"
  modernPositionApi :: bool
  timeouts :: nat
  decoding :: "nat list"

subsection \<open>Host operations\<close>

definition blank_source_node :: source_node where
  "blank_source_node = \<lparr>n_buffer = None, n_loop = False, n_playbackRate = 1,
     n_onended = None, n_started = None, n_stopCalled = False, n_ended = False\<rparr>"

definition blank_panner_node :: panner_node where
  "blank_panner_node = \<lparr>pn_panningModel = ''equalpower'', pn_distanceModel = ''inverse'',
     pn_refDistance = 1, pn_maxDistance = 10000, pn_rolloffFactor = 1,
     pn_position = (0, 0, 0)\<rparr>"

definition blank_instance :: audio_instance where
  "blank_instance = \<lparr>sourceHandle = 0, sourceNode = 0, gainNode = 0, pannerNode = None,
     spatialPanner = None, outputNode = 0, busHandle = 0, startTime = 0, pauseTime = 0,
     paused = False, stopped = False, loop = False, volume = 0, pitch = 0,
     hasCallback = False\<rparr>"

definition createBufferSource :: "engine \<Rightarrow> nat \<times> engine" where
  "createBufferSource s = (nextNode s,
     s\<lparr>nextNode := Suc (nextNode s),
       nodeKind := (nodeKind s)(nextNode s \<mapsto> BufferSource),
       sourceNodes := (sourceNodes s)(nextNode s := blank_source_node)\<rparr>)"

definition createGain :: "engine \<Rightarrow> nat \<times> engine" where
  "createGain s = (nextNode s,
     s\<lparr>nextNode := Suc (nextNode s),
       nodeKind := (nodeKind s)(nextNode s \<mapsto> Gain),
       gainValue := (gainValue s)(nextNode s := 1)\<rparr>)"

definition createStereoPanner :: "engine \<Rightarrow> nat \<times> engine" where
  "createStereoPanner s = (nextNode s,
     s\<lparr>nextNode := Suc (nextNode s),
       nodeKind := (nodeKind s)(nextNode s \<mapsto> StereoPanner),
       panValue := (panValue s)(nextNode s := 0)\<rparr>)"

definition createPanner :: "engine \<Rightarrow> nat \<times> engine" where
  "createPanner s = (nextNode s,
     s\<lparr>nextNode := Suc (nextNode s),
       nodeKind := (nodeKind s)(nextNode s \<mapsto> Panner),
       pannerNodes := (pannerNodes s)(nextNode s := blank_panner_node)\<rparr>)"

text \<open>\<open>a.connect(b)\<close> adds a connection; \<open>a.disconnect()\<close> removes every outgoing one.\<close>

definition connect :: "nat \<Rightarrow> nat \<Rightarrow> engine \<Rightarrow> engine" where
  "connect a b s = s\<lparr>connections := connections s @ [(a, b)]\<rparr>"

definition disconnect :: "nat \<Rightarrow> engine \<Rightarrow> engine" where
  "disconnect a s = s\<lparr>connections := filter (\<lambda>e. fst e \<noteq> a) (connections s)\<rparr>"

definition updSourceNode :: "nat \<Rightarrow> (source_node \<Rightarrow> source_node) \<Rightarrow> engine \<Rightarrow> engine" where
  "updSourceNode n f s = s\<lparr>sourceNodes := (sourceNodes s)(n := f (sourceNodes s n))\<rparr>"

definition updPanner :: "nat \<Rightarrow> (panner_node \<Rightarrow> panner_node) \<Rightarrow> engine \<Rightarrow> engine" where
  "updPanner n f s = s\<lparr>pannerNodes := (pannerNodes s)(n := f (pannerNodes s n))\<rparr>"

definition setGain :: "nat \<Rightarrow> real \<Rightarrow> engine \<Rightarrow> engine" where
  "setGain n v s = s\<lparr>gainValue := (gainValue s)(n := v)\<rparr>"

definition setPanValue :: "nat \<Rightarrow> real \<Rightarrow> engine \<Rightarrow> engine" where
  "setPanValue n v s = s\<lparr>panValue := (panValue s)(n := v)\<rparr>"

text \<open>\<open>node.start(when, offset)\<close> and \<open>node.stop()\<close>.\<close>

definition startNode :: "nat \<Rightarrow> real \<Rightarrow> real \<Rightarrow> engine \<Rightarrow> engine" where
  "startNode n when offset s = updSourceNode n (\<lambda>nd. nd\<lparr>n_started := Some (when, offset)\<rparr>) s"

definition stopNode :: "nat \<Rightarrow> engine \<Rightarrow> engine" where
  "stopNode n s = updSourceNode n (\<lambda>nd. nd\<lparr>n_stopCalled := True\<rparr>) s"

text \<open>Writing a field of an instance object.\<close>

definition updObj :: "nat \<Rightarrow> (audio_instance \<Rightarrow> audio_instance) \<Rightarrow> engine \<Rightarrow> engine" where
  "updObj r f s = s\<lparr>objs := (objs s)(r := f (objs s r))\<rparr>"

subsection \<open>Lifecycle and sources\<close>

text \<open>The engine after a successful \<open>init()\<close> on a fresh page: the context destination is
  node 0, the master gain node 1 is connected to it and stored as bus 1.\<close>

definition init_engine :: engine where
  "init_engine = \<lparr>initialized = True, nextSourceHandle = 1, nextInstanceHandle = 1,
     nextBusHandle = 2, sources = Map.empty, instances = [],
     buses = [1 \<mapsto> \<lparr>b_gainNode = 1, b_volume = 1, b_muted = False\<rparr>],
     finishedCallbacks = [], pendingPlays = [], listenerX = 0, listenerY = 0,
     masterGain = 1, currentTime = 0, objs = (\<lambda>_. blank_instance), nextObj = 0,
     nextNode = 2, nodeKind = [0 \<mapsto> Destination, 1 \<mapsto> Gain],
     sourceNodes = (\<lambda>_. blank_source_node), gainValue = (\<lambda>_. 1), panValue = (\<lambda>_. 0),
     pannerNodes = (\<lambda>_. blank_panner_node), connections = [(1, 0)],
     listenerPosition = (0, 0, 0), modernPositionApi = True, timeouts = 0, decoding = []\<rparr>"

text \<open>\<open>_js_load_audio\<close>: the handle is reserved at once and the decode runs in the
  background; \<open>decodeResolved\<close> and \<open>decodeRejected\<close> are the two continuations of the
  promise, which the host runs at most once for a decode in flight.\<close>

definition js_load_audio :: "engine \<Rightarrow> nat \<times> engine" where
  "js_load_audio s = (nextSourceHandle s,
     s\<lparr>nextSourceHandle := Suc (nextSourceHandle s),
       decoding := decoding s @ [nextSourceHandle s]\<rparr>)"

definition decodeResolved :: "nat \<Rightarrow> nat \<Rightarrow> real \<Rightarrow> engine \<Rightarrow> engine" where
  "decodeResolved h buf dur s =
     (if h \<in> set (decoding s)
      then s\<lparr>decoding := removeAll h (decoding s),
             sources := (sources s)(h \<mapsto> \<lparr>buffer = buf, duration = dur\<rparr>)\<rparr>
      else s)"

definition decodeRejected :: "nat \<Rightarrow> engine \<Rightarrow> engine" where
  "decodeRejected h s = s\<lparr>decoding := removeAll h (decoding s)\<rparr>"

definition destroyAudio :: "nat \<Rightarrow> engine \<Rightarrow> engine" where
  "destroyAudio sh s = s\<lparr>sources := (sources s)(sh := None)\<rparr>"

definition getAudioDuration :: "engine \<Rightarrow> nat \<Rightarrow> real" where
  "getAudioDuration s sh = (case sources s sh of None \<Rightarrow> 0 | Some src \<Rightarrow> duration src)"

subsection \<open>Playback\<close>

text \<open>The \<open>onended\<close> closure installed by \<open>playAudioInternal\<close> and by \<open>resumeAudio\<close>, for the
  instance object \<open>r\<close> and the handle \<open>h\<close> it captured.\<close>

definition onended :: "nat \<Rightarrow> nat \<Rightarrow> engine \<Rightarrow> engine" where
  "onended r h s =
     (if \<not> stopped (objs s r) \<and> \<not> loop (objs s r)
      then (let s1 = (if hasCallback (objs s r)
                      then s\<lparr>finishedCallbacks := finishedCallbacks s @ [h]\<rparr> else s)
            in s1\<lparr>instances := AList.delete h (instances s1)\<rparr>)
      else s)"

text \<open>Both branches of the position test (\<open>positionX\<close> present or the legacy
  \<open>setPosition\<close>) place a new panner at \<open>(posX, posY, 0)\<close>.\<close>

definition playAudioInternal :: "play_params \<Rightarrow> source \<Rightarrow> engine \<Rightarrow> engine" where
  "playAudioInternal params src s =
     (let (sn, s1) = createBufferSource s;
          s2 = updSourceNode sn (\<lambda>nd. nd\<lparr>n_buffer := Some (buffer src),
                 n_loop := p_loop params, n_playbackRate := p_pitch params\<rparr>) s1;
          (gn, s3) = createGain s2;
          s4 = setGain gn (p_volume params) s3;
          out = (if p_busHandle params > 1
                 then (case buses s4 (p_busHandle params) of
                         Some b \<Rightarrow> b_gainNode b | None \<Rightarrow> masterGain s4)
                 else masterGain s4);
          (pan, spat, lastNode, s5) =
            (if p_isSpatial params
             then (let (sp, t1) = createPanner s4;
                       t2 = updPanner sp (\<lambda>_. \<lparr>pn_panningModel = ''HRTF'',
                              pn_distanceModel = ''linear'',
                              pn_refDistance = p_minDistance params,
                              pn_maxDistance = p_maxDistance params,
                              pn_rolloffFactor = 1,
                              pn_position = (p_posX params, p_posY params, 0)\<rparr>) t1
                   in (None, Some sp, sp, connect sn sp t2))
             else if p_pan params \<noteq> 0
             then (let (pn, t1) = createStereoPanner s4;
                       t2 = setPanValue pn (p_pan params) t1
                   in (Some pn, None, pn, connect sn pn t2))
             else (None, None, sn, s4));
          s6 = connect gn out (connect lastNode gn s5);
          r = nextObj s6;
          s7 = s6\<lparr>nextObj := Suc r,
                 objs := (objs s6)(r := \<lparr>sourceHandle = p_sourceHandle params,
                    sourceNode = sn, gainNode = gn, pannerNode = pan, spatialPanner = spat,
                    outputNode = out, busHandle = p_busHandle params,
                    startTime = currentTime s6 + p_delay params, pauseTime = 0,
                    paused = False, stopped = False, loop = p_loop params,
                    volume = p_volume params, pitch = p_pitch params,
                    hasCallback = p_hasCallback params\<rparr>),
                 instances := AList.update (p_handle params) r (instances s6)\<rparr>;
          s8 = updSourceNode sn (\<lambda>nd. nd\<lparr>n_onended := Some (r, p_handle params)\<rparr>) s7
      in startNode sn (currentTime s8 + p_delay params) 0 s8)"

definition playAudio ::
  "nat \<Rightarrow> nat \<Rightarrow> real \<Rightarrow> real \<Rightarrow> real \<Rightarrow> bool \<Rightarrow> real \<Rightarrow> bool \<Rightarrow> real \<Rightarrow> real \<Rightarrow> real \<Rightarrow> real \<Rightarrow> bool
     \<Rightarrow> engine \<Rightarrow> nat \<times> engine" where
  "playAudio sh bh vol pan pit lp del spat px py mind maxd cb s =
     (if \<not> initialized s then (0, s)
      else (let h = nextInstanceHandle s;
                params = \<lparr>p_handle = h, p_sourceHandle = sh, p_busHandle = bh,
                  p_volume = vol, p_pan = pan, p_pitch = pit, p_loop = lp, p_delay = del,
                  p_isSpatial = spat, p_posX = px, p_posY = py, p_minDistance = mind,
                  p_maxDistance = maxd, p_hasCallback = cb, p_retries = 0\<rparr>;
                s1 = s\<lparr>nextInstanceHandle := Suc h\<rparr>
            in (case sources s sh of
                  None \<Rightarrow>
                    (let s2 = s1\<lparr>pendingPlays := pendingPlays s1 @ [params]\<rparr>
                     in (h, if length (pendingPlays s2) = 1
                            then s2\<lparr>timeouts := Suc (timeouts s2)\<rparr> else s2))
                | Some src \<Rightarrow> (h, playAudioInternal params src s1))))"

text \<open>\<open>stopInstance\<close> receives the instance object.\<close>

definition stopInstance :: "nat \<Rightarrow> engine \<Rightarrow> engine" where
  "stopInstance r s =
     (if stopped (objs s r) then s
      else (let s1 = updObj r (\<lambda>i. i\<lparr>stopped := True\<rparr>) s;
                i = objs s1 r;
                s2 = stopNode (sourceNode i) s1;
                s3 = disconnect (gainNode i) (disconnect (sourceNode i) s2);
                s4 = (case pannerNode i of Some n \<Rightarrow> disconnect n s3 | None \<Rightarrow> s3)
            in (case spatialPanner i of Some n \<Rightarrow> disconnect n s4 | None \<Rightarrow> s4)))"

definition stopAudio :: "nat \<Rightarrow> engine \<Rightarrow> engine" where
  "stopAudio h s =
     (case map_of (instances s) h of
        None \<Rightarrow> s
      | Some r \<Rightarrow> (let s1 = stopInstance r s
                  in s1\<lparr>instances := AList.delete h (instances s1)\<rparr>))"

definition pauseAudio :: "nat \<Rightarrow> engine \<Rightarrow> engine" where
  "pauseAudio h s =
     (case map_of (instances s) h of
        None \<Rightarrow> s
      | Some r \<Rightarrow>
          (if paused (objs s r) \<or> stopped (objs s r) then s
           else stopNode (sourceNode (objs s r))
                  (updObj r (\<lambda>i. i\<lparr>paused := True,
                     pauseTime := currentTime s - startTime i\<rparr>) s)))"

definition resumeAudio :: "nat \<Rightarrow> engine \<Rightarrow> engine" where
  "resumeAudio h s =
     (case map_of (instances s) h of
        None \<Rightarrow> s
      | Some r \<Rightarrow>
          (if \<not> paused (objs s r) \<or> stopped (objs s r) then s
           else (case sources s (sourceHandle (objs s r)) of
                   None \<Rightarrow> s
                 | Some src \<Rightarrow>
                     (let i = objs s r;
                          (sn, s1) = createBufferSource s;
                          s2 = updSourceNode sn (\<lambda>nd. nd\<lparr>n_buffer := Some (buffer src),
                                 n_loop := loop i, n_playbackRate := pitch i\<rparr>) s1;
                          (lastNode, s3) =
                            (case spatialPanner i of
                               Some sp \<Rightarrow> (sp, connect sn sp s2)
                             | None \<Rightarrow>
                                (case pannerNode i of
                                   Some pn \<Rightarrow> (pn, connect sn pn s2)
                                 | None \<Rightarrow> (sn, s2)));
                          s4 = connect lastNode (gainNode i) s3;
                          s5 = updObj r (\<lambda>i. i\<lparr>sourceNode := sn, paused := False,
                                 startTime := currentTime s4 - pauseTime i\<rparr>) s4;
                          s6 = updSourceNode sn (\<lambda>nd. nd\<lparr>n_onended := Some (r, h)\<rparr>) s5
                      in startNode sn 0 (pauseTime (objs s6 r)) s6))))"

text \<open>\<open>stopAllAudio\<close> walks the map and deletes the entries it stops; the walk visits the
  entries present when it started, each once. \<open>stopAllBody\<close> is the body of its loop for
  one entry.\<close>

definition stopAllBody :: "nat \<Rightarrow> nat \<times> nat \<Rightarrow> engine \<Rightarrow> engine" where
  "stopAllBody bh entry t =
     (case entry of (h, r) \<Rightarrow>
        if bh = 0 \<or> busHandle (objs t r) = bh
        then (let t1 = stopInstance r t
              in t1\<lparr>instances := AList.delete h (instances t1)\<rparr>)
        else t)"

definition stopAllAudio :: "nat \<Rightarrow> engine \<Rightarrow> engine" where
  "stopAllAudio bh s = fold (stopAllBody bh) (instances s) s"

subsection \<open>Live control\<close>

definition setAudioVolume :: "nat \<Rightarrow> real \<Rightarrow> engine \<Rightarrow> engine" where
  "setAudioVolume h v s =
     (case map_of (instances s) h of
        None \<Rightarrow> s
      | Some r \<Rightarrow> setGain (gainNode (objs s r)) v (updObj r (\<lambda>i. i\<lparr>volume := v\<rparr>) s))"

definition setAudioPan :: "nat \<Rightarrow> real \<Rightarrow> engine \<Rightarrow> engine" where
  "setAudioPan h v s =
     (case map_of (instances s) h of
        None \<Rightarrow> s
      | Some r \<Rightarrow> (case pannerNode (objs s r) of
                     None \<Rightarrow> s
                   | Some pn \<Rightarrow> setPanValue pn v s))"

definition setAudioPitch :: "nat \<Rightarrow> real \<Rightarrow> engine \<Rightarrow> engine" where
  "setAudioPitch h v s =
     (case map_of (instances s) h of
        None \<Rightarrow> s
      | Some r \<Rightarrow> updSourceNode (sourceNode (objs s r)) (\<lambda>nd. nd\<lparr>n_playbackRate := v\<rparr>)
                    (updObj r (\<lambda>i. i\<lparr>pitch := v\<rparr>) s))"

definition setAudioLooping :: "nat \<Rightarrow> bool \<Rightarrow> engine \<Rightarrow> engine" where
  "setAudioLooping h l s =
     (case map_of (instances s) h of
        None \<Rightarrow> s
      | Some r \<Rightarrow> updSourceNode (sourceNode (objs s r)) (\<lambda>nd. nd\<lparr>n_loop := l\<rparr>)
                    (updObj r (\<lambda>i. i\<lparr>loop := l\<rparr>) s))"

text \<open>With position parameters the engine writes X and Y only; the legacy call writes
  \<open>(x, y, 0)\<close>.\<close>

definition setAudioPosition :: "nat \<Rightarrow> real \<Rightarrow> real \<Rightarrow> engine \<Rightarrow> engine" where
  "setAudioPosition h x y s =
     (case map_of (instances s) h of
        None \<Rightarrow> s
      | Some r \<Rightarrow> (case spatialPanner (objs s r) of
                     None \<Rightarrow> s
                   | Some sp \<Rightarrow>
                       (if modernPositionApi s
                        then updPanner sp (\<lambda>p. p\<lparr>pn_position :=
                               (x, y, snd (snd (pn_position p)))\<rparr>) s
                        else updPanner sp (\<lambda>p. p\<lparr>pn_position := (x, y, 0)\<rparr>) s)))"

subsection \<open>Queries\<close>

definition isAudioPlaying :: "engine \<Rightarrow> nat \<Rightarrow> bool" where
  "isAudioPlaying s h =
     (case map_of (instances s) h of
        None \<Rightarrow> False
      | Some r \<Rightarrow> \<not> paused (objs s r) \<and> \<not> stopped (objs s r))"

definition isAudioPaused :: "engine \<Rightarrow> nat \<Rightarrow> bool" where
  "isAudioPaused s h =
     (case map_of (instances s) h of None \<Rightarrow> False | Some r \<Rightarrow> paused (objs s r))"

definition getAudioTime :: "engine \<Rightarrow> nat \<Rightarrow> jsnum" where
  "getAudioTime s h =
     (case map_of (instances s) h of
        None \<Rightarrow> Number 0
      | Some r \<Rightarrow>
          (let i = objs s r in
           if paused i then Number (pauseTime i)
           else if stopped i then Number 0
           else (let elapsed = currentTime s - startTime i
                 in (case sources s (sourceHandle i) of
                       Some src \<Rightarrow>
                         (if loop i then js_rem elapsed (duration src)
                          else Number (min elapsed (duration src)))
                     | None \<Rightarrow> Number (min elapsed elapsed)))))"

subsection \<open>Buses\<close>

definition createAudioBus :: "engine \<Rightarrow> nat \<times> engine" where
  "createAudioBus s =
     (if \<not> initialized s then (0, s)
      else (let h = nextBusHandle s;
                (gn, s1) = createGain (s\<lparr>nextBusHandle := Suc h\<rparr>);
                s2 = connect gn (masterGain s1) s1
            in (h, s2\<lparr>buses := (buses s2)(h \<mapsto>
                      \<lparr>b_gainNode = gn, b_volume = 1, b_muted = False\<rparr>)\<rparr>)))"

definition destroyAudioBus :: "nat \<Rightarrow> engine \<Rightarrow> engine" where
  "destroyAudioBus bh s =
     (if bh \<le> 1 then s
      else (case buses s bh of
              None \<Rightarrow> s
            | Some b \<Rightarrow> (let s1 = disconnect (b_gainNode b) s
                        in s1\<lparr>buses := (buses s1)(bh := None)\<rparr>)))"

definition setAudioBusVolume :: "nat \<Rightarrow> real \<Rightarrow> engine \<Rightarrow> engine" where
  "setAudioBusVolume bh v s =
     (case buses s bh of
        None \<Rightarrow> s
      | Some b \<Rightarrow> (let s1 = s\<lparr>buses := (buses s)(bh \<mapsto> b\<lparr>b_volume := v\<rparr>)\<rparr>
                  in if \<not> b_muted b then setGain (b_gainNode b) v s1 else s1))"

definition getAudioBusVolume :: "engine \<Rightarrow> nat \<Rightarrow> real" where
  "getAudioBusVolume s bh = (case buses s bh of None \<Rightarrow> 1 | Some b \<Rightarrow> b_volume b)"

definition setAudioBusMuted :: "nat \<Rightarrow> bool \<Rightarrow> engine \<Rightarrow> engine" where
  "setAudioBusMuted bh m s =
     (case buses s bh of
        None \<Rightarrow> s
      | Some b \<Rightarrow> setGain (b_gainNode b) (if m then 0 else b_volume b)
                    (s\<lparr>buses := (buses s)(bh \<mapsto> b\<lparr>b_muted := m\<rparr>)\<rparr>))"

definition isAudioBusMuted :: "engine \<Rightarrow> nat \<Rightarrow> bool" where
  "isAudioBusMuted s bh = (case buses s bh of None \<Rightarrow> False | Some b \<Rightarrow> b_muted b)"

subsection \<open>Listener, callback polling and the deferred plays\<close>

definition setListenerPosition :: "real \<Rightarrow> real \<Rightarrow> engine \<Rightarrow> engine" where
  "setListenerPosition x y s =
     (if \<not> initialized s then s
      else s\<lparr>listenerX := x, listenerY := y, listenerPosition := (x, y, 0)\<rparr>)"

definition pollFinishedCallback :: "engine \<Rightarrow> nat \<times> engine" where
  "pollFinishedCallback s =
     (case finishedCallbacks s of
        [] \<Rightarrow> (0, s)
      | h # rest \<Rightarrow> (h, s\<lparr>finishedCallbacks := rest\<rparr>))"

text \<open>The loop of \<open>processPendingPlays\<close> over the queue, with \<open>stillPending\<close> as accumulator.\<close>

fun sweepPending :: "play_params list \<Rightarrow> play_params list \<Rightarrow> engine
    \<Rightarrow> play_params list \<times> engine" where
  "sweepPending [] stillPending s = (stillPending, s)"
| "sweepPending (pending # rest) stillPending s =
     (case sources s (p_sourceHandle pending) of
        Some src \<Rightarrow> sweepPending rest stillPending (playAudioInternal pending src s)
      | None \<Rightarrow>
          (let pending' = pending\<lparr>p_retries := p_retries pending + 1\<rparr>
           in if p_retries pending' < 10
              then sweepPending rest (stillPending @ [pending']) s
              else sweepPending rest stillPending s))"

definition processPendingPlays :: "engine \<Rightarrow> engine" where
  "processPendingPlays s =
     (let (stillPending, s1) = sweepPending (pendingPlays s) [] s;
          s2 = s1\<lparr>pendingPlays := stillPending\<rparr>
      in if length stillPending > 0 then s2\<lparr>timeouts := Suc (timeouts s2)\<rparr> else s2)"

subsection \<open>What the host does on its own\<close>

text \<open>A timeout armed by \<open>setTimeout\<close> fires and runs the sweep.\<close>

definition timeoutFired :: "engine \<Rightarrow> engine" where
  "timeoutFired s =
     (if timeouts s = 0 then s
      else processPendingPlays (s\<lparr>timeouts := timeouts s - 1\<rparr>))"

text \<open>The context clock is monotonic.\<close>

definition clockAdvanced :: "real \<Rightarrow> engine \<Rightarrow> engine" where
  "clockAdvanced dt s = (if 0 \<le> dt then s\<lparr>currentTime := currentTime s + dt\<rparr> else s)"

text \<open>Modelled from the spec: the host's \<open>ended\<close> notification of a buffer source node, which
  is not code of this repository. Section 6 has it as a one-shot notification fired when
  playback reaches the end of the buffer without the node having been stopped, and
  section 4.3 adds that a looping node never completes; so the notification is delivered
  to a started node that was not stopped, does not loop and has not ended yet, and it runs
  the node's \<open>onended\<close> closure.\<close>

definition canEnd :: "engine \<Rightarrow> nat \<Rightarrow> bool" where
  "canEnd s n = (let nd = sourceNodes s n
      in nodeKind s n = Some BufferSource \<and> n_started nd \<noteq> None \<and> \<not> n_stopCalled nd
         \<and> \<not> n_ended nd \<and> \<not> n_loop nd)"

definition nodeEnded :: "nat \<Rightarrow> engine \<Rightarrow> engine" where
  "nodeEnded n s =
     (if canEnd s n
      then (let s1 = updSourceNode n (\<lambda>nd. nd\<lparr>n_ended := True\<rparr>) s
            in (case n_onended (sourceNodes s1 n) of
                  None \<Rightarrow> s1
                | Some (r, h) \<Rightarrow> onended r h s1))
      else s)"

subsection \<open>Runs of the engine\<close>

text \<open>Everything that can happen to a running engine: the calls of the game module that
  change the state, and the host's own events.\<close>

datatype event =
    Load
  | DecodeResolved nat nat real
  | DecodeRejected nat
  | DestroyAudio nat
  | Play nat nat real real real bool real bool real real real real bool
  | Stop nat
  | Pause nat
  | Resume nat
  | StopAll nat
  | SetVolume nat real
  | SetPan nat real
  | SetPitch nat real
  | SetLooping nat bool
  | SetPosition nat real real
  | CreateBus
  | DestroyBus nat
  | SetBusVolume nat real
  | SetBusMuted nat bool
  | SetListener real real
  | PollFinished
  | TimeoutFired
  | ClockAdvanced real
  | NodeEnded nat

fun step :: "event \<Rightarrow> engine \<Rightarrow> engine" where
  "step Load s = snd (js_load_audio s)"
| "step (DecodeResolved h buf dur) s = decodeResolved h buf dur s"
| "step (DecodeRejected h) s = decodeRejected h s"
| "step (DestroyAudio sh) s = destroyAudio sh s"
| "step (Play sh bh vol pan pit lp del spat px py mind maxd cb) s =
     snd (playAudio sh bh vol pan pit lp del spat px py mind maxd cb s)"
| "step (Stop h) s = stopAudio h s"
| "step (Pause h) s = pauseAudio h s"
| "step (Resume h) s = resumeAudio h s"
| "step (StopAll bh) s = stopAllAudio bh s"
| "step (SetVolume h v) s = setAudioVolume h v s"
| "step (SetPan h v) s = setAudioPan h v s"
| "step (SetPitch h v) s = setAudioPitch h v s"
| "step (SetLooping h l) s = setAudioLooping h l s"
| "step (SetPosition h x y) s = setAudioPosition h x y s"
| "step CreateBus s = snd (createAudioBus s)"
| "step (DestroyBus bh) s = destroyAudioBus bh s"
| "step (SetBusVolume bh v) s = setAudioBusVolume bh v s"
| "step (SetBusMuted bh m) s = setAudioBusMuted bh m s"
| "step (SetListener x y) s = setListenerPosition x y s"
| "step PollFinished s = snd (pollFinishedCallback s)"
| "step TimeoutFired s = timeoutFired s"
| "step (ClockAdvanced dt) s = clockAdvanced dt s"
| "step (NodeEnded n) s = nodeEnded n s"

definition run :: "event list \<Rightarrow> engine \<Rightarrow> engine" where
  "run es s = fold step es s"

subsection \<open>Auxiliary notions for the statements\<close>

text \<open>The output node that \<open>playAudioInternal\<close> selects for a bus handle, and the instance
  object it stores, as functions of the state in which it is called.\<close>

definition outputFor :: "engine \<Rightarrow> nat \<Rightarrow> nat" where
  "outputFor s bh =
     (if bh > 1 then (case buses s bh of Some b \<Rightarrow> b_gainNode b | None \<Rightarrow> masterGain s)
      else masterGain s)"

definition newInstance :: "play_params \<Rightarrow> engine \<Rightarrow> audio_instance" where
  "newInstance params s = \<lparr>sourceHandle = p_sourceHandle params,
      sourceNode = nextNode s, gainNode = Suc (nextNode s),
      pannerNode = (if \<not> p_isSpatial params \<and> p_pan params \<noteq> 0
                    then Some (nextNode s + 2) else None),
      spatialPanner = (if p_isSpatial params then Some (nextNode s + 2) else None),
      outputNode = outputFor s (p_busHandle params), busHandle = p_busHandle params,
      startTime = currentTime s + p_delay params, pauseTime = 0,
      paused = False, stopped = False, loop = p_loop params,
      volume = p_volume params, pitch = p_pitch params,
      hasCallback = p_hasCallback params\<rparr>"

text \<open>The value the specification gives for \<open>get_time\<close>, written after its words, for a
  duration \<open>dur\<close> of the referenced source: the pause offset while paused, 0 while stopped
  or unknown, otherwise the elapsed time capped by the duration, or its remainder by
  the duration for a looping instance.\<close>

definition specified_time :: "engine \<Rightarrow> nat \<Rightarrow> real \<Rightarrow> jsnum" where
  "specified_time s h dur =
     (case map_of (instances s) h of
        None \<Rightarrow> Number 0
      | Some r \<Rightarrow>
          (if paused (objs s r) then Number (pauseTime (objs s r))
           else if stopped (objs s r) then Number 0
           else if loop (objs s r) then js_rem (currentTime s - startTime (objs s r)) dur
           else Number (min (currentTime s - startTime (objs s r)) dur)))"

text \<open>The connections \<open>resumeAudio\<close> makes for a new source node \<open>sn\<close> of the instance.\<close>

definition resumeChain :: "audio_instance \<Rightarrow> nat \<Rightarrow> (nat \<times> nat) list" where
  "resumeChain i sn =
     (case spatialPanner i of
        Some sp \<Rightarrow> [(sn, sp), (sp, gainNode i)]
      | None \<Rightarrow> (case pannerNode i of
                   Some pn \<Rightarrow> [(sn, pn), (pn, gainNode i)]
                 | None \<Rightarrow> [(sn, gainNode i)]))"

text \<open>The connections that remain after the \<open>disconnect\<close> calls of \<open>stopInstance\<close>.\<close>

definition disconnectAll :: "audio_instance \<Rightarrow> (nat \<times> nat) list \<Rightarrow> (nat \<times> nat) list" where
  "disconnectAll i cs =
     (let c1 = filter (\<lambda>e. fst e \<noteq> gainNode i) (filter (\<lambda>e. fst e \<noteq> sourceNode i) cs);
          c2 = (case pannerNode i of Some n \<Rightarrow> filter (\<lambda>e. fst e \<noteq> n) c1 | None \<Rightarrow> c1)
      in (case spatialPanner i of Some n \<Rightarrow> filter (\<lambda>e. fst e \<noteq> n) c2 | None \<Rightarrow> c2))"

subsection \<open>Invariants of a running engine\<close>

text \<open>A source node can still deliver its \<open>ended\<close> notification when it was started, was
  not stopped and has not ended.\<close>

definition canFire :: "engine \<Rightarrow> nat \<Rightarrow> bool" where
  "canFire s n = (n_started (sourceNodes s n) \<noteq> None \<and> \<not> n_stopCalled (sourceNodes s n)
      \<and> \<not> n_ended (sourceNodes s n))"

text \<open>Every node that can still deliver \<open>ended\<close> carries the hook of an instance that is in
  the table under the hook's handle, is playing, and has the node as its current source
  node.\<close>

definition hooksInv :: "engine \<Rightarrow> bool" where
  "hooksInv s = (\<forall>n r h. canFire s n \<and> n_onended (sourceNodes s n) = Some (r, h) \<longrightarrow>
      map_of (instances s) h = Some r \<and> \<not> paused (objs s r) \<and> \<not> stopped (objs s r)
      \<and> sourceNode (objs s r) = n)"

text \<open>Instance handles and objects are below their counters, the map has no duplicate
  key, and the parked requests carry pairwise different handles that are below the
  counter and not in the map.\<close>

definition handlesInv :: "engine \<Rightarrow> bool" where
  "handlesInv s = (0 < nextInstanceHandle s \<and> distinct (map fst (instances s)) \<and>
     (\<forall>h r. map_of (instances s) h = Some r \<longrightarrow> h < nextInstanceHandle s \<and> r < nextObj s) \<and>
     (\<forall>p \<in> set (pendingPlays s). p_handle p < nextInstanceHandle s
          \<and> map_of (instances s) (p_handle p) = None) \<and>
     distinct (map p_handle (pendingPlays s)))"

text \<open>One timeout is armed exactly while requests are parked.\<close>

definition timerInv :: "engine \<Rightarrow> bool" where
  "timerInv s = (timeouts s = (if pendingPlays s = [] then 0 else 1))"

text \<open>Instances refer to sources whose decode has completed; decodes in flight are for
  reserved handles that are not in the registry.\<close>

definition sourcesInv :: "engine \<Rightarrow> bool" where
  "sourcesInv s = ((\<forall>h r. map_of (instances s) h = Some r \<longrightarrow>
        sourceHandle (objs s r) < nextSourceHandle s \<and> sourceHandle (objs s r) \<notin> set (decoding s)) \<and>
     (\<forall>d \<in> set (decoding s). d < nextSourceHandle s \<and> sources s d = None) \<and>
     (\<forall>h src. sources s h = Some src \<longrightarrow> h < nextSourceHandle s))"

definition wellFormed :: "engine \<Rightarrow> bool" where
  "wellFormed s = (hooksInv s \<and> handlesInv s \<and> timerInv s \<and> sourcesInv s)"

text \<open>The parts of an instance object and of a source node that the invariants read.\<close>

definition objView :: "engine \<Rightarrow> nat \<Rightarrow> bool \<times> bool \<times> nat \<times> nat" where
  "objView s r = (paused (objs s r), stopped (objs s r), sourceNode (objs s r), sourceHandle (objs s r))"

definition nodeView :: "engine \<Rightarrow> nat \<Rightarrow> bool \<times> (nat \<times> nat) option" where
  "nodeView s n = (canFire s n, n_onended (sourceNodes s n))"

definition wellFormed0 :: "engine \<Rightarrow> bool" where
  "wellFormed0 s = (hooksInv s \<and> handlesInv s \<and> sourcesInv s)"

text \<open>The completion hooks and the instance table agree. The current source node of
  every instance in the table is a buffer source node that carries the hook of that
  instance and handle and has the instance's loop flag, and it can still deliver \<open>ended\<close>
  while the instance is playing. Every hook anywhere captured an object that exists and a
  handle that was issued and is not parked, and when that handle is in the table it is
  bound to the captured object.\<close>

definition closuresInv :: "engine \<Rightarrow> bool" where
  "closuresInv s =
    ((\<forall>h r. map_of (instances s) h = Some r \<longrightarrow>
         sourceNode (objs s r) < nextNode s
       \<and> nodeKind s (sourceNode (objs s r)) = Some BufferSource
       \<and> n_onended (sourceNodes s (sourceNode (objs s r))) = Some (r, h)
       \<and> n_loop (sourceNodes s (sourceNode (objs s r))) = loop (objs s r)
       \<and> (\<not> paused (objs s r) \<and> \<not> stopped (objs s r) \<longrightarrow> canFire s (sourceNode (objs s r))))
   \<and> (\<forall>n r h. n_onended (sourceNodes s n) = Some (r, h) \<longrightarrow>
         r < nextObj s \<and> h < nextInstanceHandle s \<and> h \<notin> p_handle ` set (pendingPlays s)
       \<and> (\<forall>r'. map_of (instances s) h = Some r' \<longrightarrow> r' = r)))"

text \<open>The parts of an instance object and of a source node that this invariant reads.\<close>

definition ciObj :: "audio_instance \<Rightarrow> bool \<times> bool \<times> nat \<times> bool" where
  "ciObj i = (paused i, stopped i, sourceNode i, loop i)"

definition ciNode :: "source_node \<Rightarrow> (nat \<times> nat) option \<times> bool \<times> bool \<times> bool \<times> bool" where
  "ciNode nd = (n_onended nd, n_loop nd, n_started nd \<noteq> None, n_stopCalled nd, n_ended nd)"

subsection \<open>Predicates on runs\<close>

text \<open>A handle that has been issued and is neither in the instance table nor waiting in
  the deferred queue.\<close>

definition retired :: "engine \<Rightarrow> nat \<Rightarrow> bool" where
  "retired s h = (h < nextInstanceHandle s \<and> map_of (instances s) h = None
      \<and> h \<notin> p_handle ` set (pendingPlays s))"

text \<open>The request \<open>p\<close> waits in the deferred queue with \<open>k\<close> retries counted.\<close>

definition parked :: "engine \<Rightarrow> play_params \<Rightarrow> nat \<Rightarrow> bool" where
  "parked s p k = (p\<lparr>p_retries := k\<rparr> \<in> set (pendingPlays s))"

text \<open>The request \<open>p\<close> has become an instance: its handle is in the instance table, bound
  to an object built from the request's parameters that is playing, neither paused nor
  stopped, and starts at the clock plus the requested delay.\<close>

definition promoted :: "engine \<Rightarrow> play_params \<Rightarrow> bool" where
  "promoted s p = (\<exists>r. map_of (instances s) (p_handle p) = Some r \<and> r < nextObj s
      \<and> sourceHandle (objs s r) = p_sourceHandle p \<and> busHandle (objs s r) = p_busHandle p
      \<and> startTime (objs s r) = currentTime s + p_delay p \<and> pauseTime (objs s r) = 0
      \<and> \<not> paused (objs s r) \<and> \<not> stopped (objs s r)
      \<and> loop (objs s r) = p_loop p \<and> volume (objs s r) = p_volume p
      \<and> pitch (objs s r) = p_pitch p \<and> hasCallback (objs s r) = p_hasCallback p
      \<and> (pannerNode (objs s r) \<noteq> None \<longleftrightarrow> \<not> p_isSpatial p \<and> p_pan p \<noteq> 0)
      \<and> (spatialPanner (objs s r) \<noteq> None \<longleftrightarrow> p_isSpatial p))"

text \<open>The instance \<open>h\<close> is paused at offset \<open>c\<close>, and its source handle \<open>sh\<close> is gone from the
  registry for good: it is neither registered nor being decoded, and was issued before.\<close>

definition stranded :: "engine \<Rightarrow> nat \<Rightarrow> nat \<Rightarrow> real \<Rightarrow> nat \<Rightarrow> nat \<Rightarrow> bool" where
  "stranded s h r c sh b = (map_of (instances s) h = Some r \<and> paused (objs s r)
     \<and> pauseTime (objs s r) = c \<and> sourceHandle (objs s r) = sh \<and> busHandle (objs s r) = b
     \<and> sources s sh = None \<and> sh \<notin> set (decoding s) \<and> sh < nextSourceHandle s)"

text \<open>The fields of an instance object, and the parts of the engine around the instance
  table, that the setters, the bus operations, the poll and the clock leave alone.\<close>

definition objCore :: "audio_instance \<Rightarrow> bool \<times> bool \<times> nat \<times> nat \<times> real \<times> nat \<times> bool" where
  "objCore i = (paused i, stopped i, sourceNode i, sourceHandle i, pauseTime i, busHandle i,
      hasCallback i)"

definition instCoreEq :: "engine \<Rightarrow> engine \<Rightarrow> bool" where
  "instCoreEq s s' = (instances s' = instances s \<and> pendingPlays s' = pendingPlays s
     \<and> nextInstanceHandle s' = nextInstanceHandle s \<and> nextObj s' = nextObj s
     \<and> timeouts s' = timeouts s
     \<and> (\<forall>r. objCore (objs s' r) = objCore (objs s r))
     \<and> (\<forall>n. nodeView s' n = nodeView s n))"

definition coreEq :: "engine \<Rightarrow> engine \<Rightarrow> bool" where
  "coreEq s s' = (instCoreEq s s' \<and> sources s' = sources s \<and> decoding s' = decoding s
     \<and> nextSourceHandle s' = nextSourceHandle s)"

text \<open>The source registry with what decides its future: the handles being decoded and the
  next handle to be issued.\<close>

definition srcView :: "engine \<Rightarrow> bool \<times> (nat \<rightharpoonup> source) \<times> nat list \<times> nat" where
  "srcView s = (initialized s, sources s, decoding s, nextSourceHandle s)"

text \<open>Every completion hook that carries the handle \<open>h\<close>, on whichever node, captured an
  object that is marked stopped.\<close>

definition disarmed :: "engine \<Rightarrow> nat \<Rightarrow> bool" where
  "disarmed s h = (\<forall>n r. n_onended (sourceNodes s n) = Some (r, h) \<longrightarrow>
      r < nextObj s \<and> stopped (objs s r))"

subsection \<open>Sample runs\<close>

text \<open>A source of two seconds is loaded and decoded as handle 1.\<close>

definition loaded :: engine where
  "loaded = run [Load, DecodeResolved 1 0 2] init_engine"

text \<open>A plain instance (no pan, not spatial, no delay, with callback) plays it on the
  master bus: handle 1, object 0, source node 2, gain node 3.\<close>

definition playing :: engine where
  "playing = step (Play 1 1 1 0 1 False 0 False 0 0 0 0 True) loaded"

text \<open>The source is destroyed under the playing instance and five seconds pass.\<close>

definition orphaned :: engine where
  "orphaned = run [DestroyAudio 1, ClockAdvanced 5] playing"

text \<open>A looping instance is started with a delay equal to the source's duration.\<close>

definition delayedLoop :: engine where
  "delayedLoop = step (Play 1 1 1 0 1 True 2 False 0 0 0 0 False) loaded"

text \<open>Parameters of a spatial play request, which also carries a pan value.\<close>

definition spatialParams :: play_params where
  "spatialParams = \<lparr>p_handle = 1, p_sourceHandle = 1, p_busHandle = 1, p_volume = 1,
     p_pan = 1 / 2, p_pitch = 1, p_loop = False, p_delay = 0, p_isSpatial = True,
     p_posX = 3, p_posY = 4, p_minDistance = 1, p_maxDistance = 100,
     p_hasCallback = False, p_retries = 0\<rparr>"

text \<open>The sample instance is paused one second after its start.\<close>

definition pausedOne :: engine where
  "pausedOne = run [ClockAdvanced 1, Pause 1] playing"

section \<open>Properties\<close>

subsection \<open>Normal forms of the operations\<close>

lemmas host_defs = createBufferSource_def createGain_def createStereoPanner_def
  createPanner_def connect_def disconnect_def updSourceNode_def updPanner_def setGain_def
  setPanValue_def startNode_def stopNode_def updObj_def

lemma playAudioInternal_eq:
  "playAudioInternal params src s =
     s\<lparr>nextNode := (if p_isSpatial params \<or> p_pan params \<noteq> 0
                     then nextNode s + 3 else nextNode s + 2),
       nodeKind := (if p_isSpatial params
                    then (nodeKind s)(nextNode s \<mapsto> BufferSource, Suc (nextNode s) \<mapsto> Gain,
                           nextNode s + 2 \<mapsto> Panner)
                    else if p_pan params \<noteq> 0
                    then (nodeKind s)(nextNode s \<mapsto> BufferSource, Suc (nextNode s) \<mapsto> Gain,
                           nextNode s + 2 \<mapsto> StereoPanner)
                    else (nodeKind s)(nextNode s \<mapsto> BufferSource, Suc (nextNode s) \<mapsto> Gain)),
       sourceNodes := (sourceNodes s)(nextNode s :=
           \<lparr>n_buffer = Some (buffer src), n_loop = p_loop params,
            n_playbackRate = p_pitch params, n_onended = Some (nextObj s, p_handle params),
            n_started = Some (currentTime s + p_delay params, 0), n_stopCalled = False,
            n_ended = False\<rparr>),
       gainValue := (gainValue s)(Suc (nextNode s) := p_volume params),
       panValue := (if \<not> p_isSpatial params \<and> p_pan params \<noteq> 0
                    then (panValue s)(nextNode s + 2 := p_pan params) else panValue s),
       pannerNodes := (if p_isSpatial params
                    then (pannerNodes s)(nextNode s + 2 := \<lparr>pn_panningModel = ''HRTF'',
                              pn_distanceModel = ''linear'',
                              pn_refDistance = p_minDistance params,
                              pn_maxDistance = p_maxDistance params,
                              pn_rolloffFactor = 1,
                              pn_position = (p_posX params, p_posY params, 0)\<rparr>)
                    else pannerNodes s),
       connections := connections s @
          (if p_isSpatial params \<or> p_pan params \<noteq> 0
           then [(nextNode s, nextNode s + 2), (nextNode s + 2, Suc (nextNode s))]
           else [(nextNode s, Suc (nextNode s))])
          @ [(Suc (nextNode s), outputFor s (p_busHandle params))],
       nextObj := Suc (nextObj s),
       objs := (objs s)(nextObj s := newInstance params s),
       instances := AList.update (p_handle params) (nextObj s) (instances s)\<rparr>"
  by (rule engine.equality)
     (simp_all add: playAudioInternal_def host_defs Let_def outputFor_def newInstance_def
       blank_source_node_def blank_panner_node_def cong: option.case_cong)

lemma pauseAudio_eq:
  assumes "map_of (instances s) h = Some r" "\<not> paused (objs s r)" "\<not> stopped (objs s r)"
  shows "pauseAudio h s =
     s\<lparr>objs := (objs s)(r := (objs s r)\<lparr>paused := True,
                   pauseTime := currentTime s - startTime (objs s r)\<rparr>),
       sourceNodes := (sourceNodes s)(sourceNode (objs s r) :=
                   (sourceNodes s (sourceNode (objs s r)))\<lparr>n_stopCalled := True\<rparr>)\<rparr>"
  using assms by (simp add: pauseAudio_def host_defs)

lemma resumeChain_paused [simp]:
  "resumeChain (i\<lparr>paused := a, pauseTime := b\<rparr>) n = resumeChain i n"
  by (simp add: resumeChain_def split: option.splits)

lemma resumeAudio_eq:
  assumes "map_of (instances s) h = Some r" "paused (objs s r)" "\<not> stopped (objs s r)"
    and "sources s (sourceHandle (objs s r)) = Some src"
  shows "resumeAudio h s =
     s\<lparr>nextNode := Suc (nextNode s),
       nodeKind := (nodeKind s)(nextNode s \<mapsto> BufferSource),
       sourceNodes := (sourceNodes s)(nextNode s :=
           \<lparr>n_buffer = Some (buffer src), n_loop = loop (objs s r),
            n_playbackRate = pitch (objs s r), n_onended = Some (r, h),
            n_started = Some (0, pauseTime (objs s r)), n_stopCalled = False,
            n_ended = False\<rparr>),
       connections := connections s @ resumeChain (objs s r) (nextNode s),
       objs := (objs s)(r := (objs s r)\<lparr>sourceNode := nextNode s, paused := False,
                   startTime := currentTime s - pauseTime (objs s r)\<rparr>)\<rparr>"
  using assms
  by (intro engine.equality)
     (simp_all add: resumeAudio_def host_defs Let_def resumeChain_def blank_source_node_def
       split: option.splits cong: option.case_cong)

lemma resumeAudio_absent:
  assumes "map_of (instances s) h = Some r" "sources s (sourceHandle (objs s r)) = None"
  shows "resumeAudio h s = s"
  using assms by (simp add: resumeAudio_def)

subsection \<open>The sample runs, evaluated\<close>

lemma loaded_eq:
  "loaded = init_engine\<lparr>nextSourceHandle := 2,
      sources := [1 \<mapsto> \<lparr>buffer = 0, duration = 2\<rparr>]\<rparr>"
  by (simp add: loaded_def run_def js_load_audio_def decodeResolved_def init_engine_def)

lemma playing_facts:
  "map_of (instances playing) 1 = Some 0"
  "instances playing = [(1, 0)]"
  "sources playing 1 = Some \<lparr>buffer = 0, duration = 2\<rparr>"
  "currentTime playing = 0"
  "startTime (objs playing 0) = 0"
  "sourceHandle (objs playing 0) = 1"
  "\<not> paused (objs playing 0)"
  "\<not> stopped (objs playing 0)"
  "\<not> loop (objs playing 0)"
  "pannerNode (objs playing 0) = None"
  "spatialPanner (objs playing 0) = None"
  "hasCallback (objs playing 0)"
  "sourceNode (objs playing 0) = 2"
  by (simp_all add: playing_def playAudio_def playAudioInternal_eq loaded_eq init_engine_def
        Let_def newInstance_def)

lemma orphaned_facts:
  "map_of (instances orphaned) 1 = Some 0"
  "objs orphaned 0 = objs playing 0"
  "sources orphaned 1 = None"
  "currentTime orphaned = 5"
  using playing_facts by (simp_all add: orphaned_def run_def destroyAudio_def clockAdvanced_def)

lemma delayedLoop_facts:
  "map_of (instances delayedLoop) 1 = Some 0"
  "sources delayedLoop 1 = Some \<lparr>buffer = 0, duration = 2\<rparr>"
  "currentTime delayedLoop = 0"
  "startTime (objs delayedLoop 0) = 2"
  "sourceHandle (objs delayedLoop 0) = 1"
  "\<not> paused (objs delayedLoop 0)"
  "\<not> stopped (objs delayedLoop 0)"
  "loop (objs delayedLoop 0)"
  by (simp_all add: delayedLoop_def playAudio_def playAudioInternal_eq loaded_eq init_engine_def
        Let_def newInstance_def)

subsection \<open>The remainder of a negative number\<close>

lemma js_rem_neg:
  assumes "x < 0" "d \<noteq> 0"
  shows "\<exists>y. js_rem x d = Number y \<and> y \<le> 0 \<and> (y = 0 \<longleftrightarrow> (\<exists>k::int. x = d * of_int k))"
proof -
  let ?q = "js_trunc (x / d)"
  let ?y = "x - d * of_int ?q"
  have r: "js_rem x d = Number ?y" using assms by (simp add: js_rem_def)
  have le: "?y \<le> 0"
  proof (cases "0 < d")
    case True
    then have "x / d < 0" using assms by (simp add: divide_neg_pos)
    then have "?q = \<lceil>x / d\<rceil>" by (simp add: js_trunc_def)
    moreover have "x / d \<le> of_int \<lceil>x / d\<rceil>" by simp
    ultimately have "x / d \<le> of_int ?q" by simp
    then have "x \<le> of_int ?q * d" using True by (simp add: pos_divide_le_eq)
    then show ?thesis by (simp add: mult.commute)
  next
    case False
    then have dn: "d < 0" using assms by simp
    then have "0 \<le> x / d" using assms by (simp add: divide_nonpos_neg)
    then have "?q = \<lfloor>x / d\<rfloor>" by (simp add: js_trunc_def)
    moreover have "of_int \<lfloor>x / d\<rfloor> \<le> x / d" by simp
    ultimately have "of_int ?q \<le> x / d" by simp
    then have "x \<le> of_int ?q * d" using dn by (simp add: neg_le_divide_eq)
    then show ?thesis by (simp add: mult.commute)
  qed
  have eq: "?y = 0 \<longleftrightarrow> (\<exists>k::int. x = d * of_int k)"
  proof
    assume "?y = 0"
    then have "x = d * of_int ?q" by simp
    then show "\<exists>k::int. x = d * of_int k" ..
  next
    assume "\<exists>k::int. x = d * of_int k"
    then obtain k :: int where k: "x = d * of_int k" ..
    then have "x / d = of_int k" using assms by simp
    then have "?q = k" by (simp add: js_trunc_def)
    then show "?y = 0" using k by simp
  qed
  show ?thesis using r le eq by blast
qed

section \<open>The invariants hold in every reachable state\<close>

lemma hooksInv_frame:
  assumes "hooksInv s" "instances s' = instances s"
    "\<And>r. objView s' r = objView s r" "\<And>n. nodeView s' n = nodeView s n"
  shows "hooksInv s'"
proof -
  have o: "paused (objs s' r) = paused (objs s r)" "stopped (objs s' r) = stopped (objs s r)"
     "sourceNode (objs s' r) = sourceNode (objs s r)" for r
    using assms(3)[of r] by (simp_all add: objView_def)
  have n: "canFire s' n = canFire s n" "n_onended (sourceNodes s' n) = n_onended (sourceNodes s n)" for n
    using assms(4)[of n] by (simp_all add: nodeView_def)
  show ?thesis using assms(1) unfolding hooksInv_def by (simp add: o n assms(2))
qed

lemma handlesInv_frame:
  assumes "handlesInv s" "instances s' = instances s" "pendingPlays s' = pendingPlays s"
    "nextInstanceHandle s' = nextInstanceHandle s" "nextObj s' = nextObj s"
  shows "handlesInv s'"
  using assms(1) unfolding handlesInv_def by (simp add: assms(2-5))

lemma sourcesInv_frame:
  assumes "sourcesInv s" "instances s' = instances s" "sources s' = sources s"
    "decoding s' = decoding s" "nextSourceHandle s' = nextSourceHandle s"
    "\<And>r. objView s' r = objView s r"
  shows "sourcesInv s'"
proof -
  have o: "sourceHandle (objs s' r) = sourceHandle (objs s r)" for r
    using assms(6)[of r] by (simp add: objView_def)
  show ?thesis using assms(1) unfolding sourcesInv_def by (simp add: o assms(2-5))
qed

lemma wf_frame:
  assumes "wellFormed s" "instances s' = instances s" "pendingPlays s' = pendingPlays s"
    "nextInstanceHandle s' = nextInstanceHandle s" "nextObj s' = nextObj s"
    "timeouts s' = timeouts s" "sources s' = sources s"
    "decoding s' = decoding s" "nextSourceHandle s' = nextSourceHandle s"
    "\<And>r. objView s' r = objView s r" "\<And>n. nodeView s' n = nodeView s n"
  shows "wellFormed s'"
  using assms(1) hooksInv_frame[of s s'] handlesInv_frame[of s s'] sourcesInv_frame[of s s']
  unfolding wellFormed_def timerInv_def by (simp add: assms(2-11))

lemmas view_defs = objView_def nodeView_def canFire_def

lemma wf_init: "wellFormed init_engine"
  by (simp add: wellFormed_def hooksInv_def handlesInv_def timerInv_def sourcesInv_def canFire_def
       init_engine_def blank_source_node_def)

lemma wf_clock: "wellFormed s \<Longrightarrow> wellFormed (clockAdvanced d s)"
  by (erule wf_frame) (simp_all add: clockAdvanced_def view_defs)

lemma wf_poll: "wellFormed s \<Longrightarrow> wellFormed (snd (pollFinishedCallback s))"
  by (erule wf_frame) (simp_all add: pollFinishedCallback_def view_defs split: list.splits)

lemma wf_listener: "wellFormed s \<Longrightarrow> wellFormed (setListenerPosition x y s)"
  by (erule wf_frame) (simp_all add: setListenerPosition_def view_defs)

lemma wf_createBus: "wellFormed s \<Longrightarrow> wellFormed (snd (createAudioBus s))"
  by (erule wf_frame) (simp_all add: createAudioBus_def host_defs Let_def view_defs)

lemma wf_destroyBus: "wellFormed s \<Longrightarrow> wellFormed (destroyAudioBus b s)"
  by (erule wf_frame) (simp_all add: destroyAudioBus_def host_defs Let_def view_defs split: option.splits)

lemma wf_busVolume: "wellFormed s \<Longrightarrow> wellFormed (setAudioBusVolume b v s)"
  by (erule wf_frame) (simp_all add: setAudioBusVolume_def host_defs Let_def view_defs split: option.splits)

lemma wf_busMuted: "wellFormed s \<Longrightarrow> wellFormed (setAudioBusMuted b v s)"
  by (erule wf_frame) (simp_all add: setAudioBusMuted_def host_defs Let_def view_defs split: option.splits)

lemma wf_setVolume: "wellFormed s \<Longrightarrow> wellFormed (setAudioVolume h v s)"
  by (erule wf_frame) (simp_all add: setAudioVolume_def host_defs view_defs split: option.splits)

lemma wf_setPan: "wellFormed s \<Longrightarrow> wellFormed (setAudioPan h v s)"
  by (erule wf_frame) (simp_all add: setAudioPan_def host_defs view_defs split: option.splits)

lemma wf_setPitch: "wellFormed s \<Longrightarrow> wellFormed (setAudioPitch h v s)"
  by (erule wf_frame) (simp_all add: setAudioPitch_def host_defs view_defs split: option.splits)

lemma wf_setLooping: "wellFormed s \<Longrightarrow> wellFormed (setAudioLooping h v s)"
  by (erule wf_frame) (simp_all add: setAudioLooping_def host_defs view_defs split: option.splits)

lemma wf_setPosition: "wellFormed s \<Longrightarrow> wellFormed (setAudioPosition h x y s)"
  by (erule wf_frame) (simp_all add: setAudioPosition_def host_defs view_defs split: option.splits)

lemma hooksI:
  assumes "\<And>n r h. canFire s n \<Longrightarrow> n_onended (sourceNodes s n) = Some (r, h) \<Longrightarrow>
      map_of (instances s) h = Some r \<and> \<not> paused (objs s r) \<and> \<not> stopped (objs s r)
      \<and> sourceNode (objs s r) = n"
  shows "hooksInv s"
  using assms unfolding hooksInv_def by blast

lemma hooksD:
  assumes "hooksInv s" "canFire s n" "n_onended (sourceNodes s n) = Some (r, h)"
  shows "map_of (instances s) h = Some r" "\<not> paused (objs s r)" "\<not> stopped (objs s r)"
      "sourceNode (objs s r) = n"
  using assms unfolding hooksInv_def by blast+

lemma handlesI:
  assumes "0 < nextInstanceHandle s" "distinct (map fst (instances s))"
    "\<And>h r. map_of (instances s) h = Some r \<Longrightarrow> h < nextInstanceHandle s"
    "\<And>h r. map_of (instances s) h = Some r \<Longrightarrow> r < nextObj s"
    "\<And>p. p \<in> set (pendingPlays s) \<Longrightarrow> p_handle p < nextInstanceHandle s"
    "\<And>p. p \<in> set (pendingPlays s) \<Longrightarrow> map_of (instances s) (p_handle p) = None"
    "distinct (map p_handle (pendingPlays s))"
  shows "handlesInv s"
  using assms unfolding handlesInv_def by blast

lemma handlesD:
  assumes "handlesInv s"
  shows "0 < nextInstanceHandle s" "distinct (map fst (instances s))"
    "\<And>h r. map_of (instances s) h = Some r \<Longrightarrow> h < nextInstanceHandle s"
    "\<And>h r. map_of (instances s) h = Some r \<Longrightarrow> r < nextObj s"
    "\<And>p. p \<in> set (pendingPlays s) \<Longrightarrow> p_handle p < nextInstanceHandle s"
    "\<And>p. p \<in> set (pendingPlays s) \<Longrightarrow> map_of (instances s) (p_handle p) = None"
    "distinct (map p_handle (pendingPlays s))"
  using assms unfolding handlesInv_def by blast+

lemma sourcesI:
  assumes "\<And>h r. map_of (instances s) h = Some r \<Longrightarrow> sourceHandle (objs s r) < nextSourceHandle s"
    "\<And>h r. map_of (instances s) h = Some r \<Longrightarrow> sourceHandle (objs s r) \<notin> set (decoding s)"
    "\<And>d. d \<in> set (decoding s) \<Longrightarrow> d < nextSourceHandle s"
    "\<And>d. d \<in> set (decoding s) \<Longrightarrow> sources s d = None"
    "\<And>h src. sources s h = Some src \<Longrightarrow> h < nextSourceHandle s"
  shows "sourcesInv s"
  using assms unfolding sourcesInv_def by blast

lemma sourcesD:
  assumes "sourcesInv s"
  shows "\<And>h r. map_of (instances s) h = Some r \<Longrightarrow> sourceHandle (objs s r) < nextSourceHandle s"
    "\<And>h r. map_of (instances s) h = Some r \<Longrightarrow> sourceHandle (objs s r) \<notin> set (decoding s)"
    "\<And>d. d \<in> set (decoding s) \<Longrightarrow> d < nextSourceHandle s"
    "\<And>d. d \<in> set (decoding s) \<Longrightarrow> sources s d = None"
    "\<And>h src. sources s h = Some src \<Longrightarrow> h < nextSourceHandle s"
  using assms unfolding sourcesInv_def by blast+

lemma wfD:
  assumes "wellFormed s"
  shows "hooksInv s" "handlesInv s" "timerInv s" "sourcesInv s"
  using assms by (simp_all add: wellFormed_def)

lemma wf_load: assumes "wellFormed s" shows "wellFormed (snd (js_load_audio s))"
proof -
  let ?s = "snd (js_load_audio s)"
  note h = wfD[OF assms]
  have 1: "hooksInv ?s" by (rule hooksInv_frame[OF h(1)]) (simp_all add: js_load_audio_def view_defs)
  have 2: "handlesInv ?s" by (rule handlesInv_frame[OF h(2)]) (simp_all add: js_load_audio_def)
  have 3: "timerInv ?s" using h(3) by (simp add: timerInv_def js_load_audio_def)
  have n: "sources s (nextSourceHandle s) = None"
    using sourcesD(5)[OF h(4), of "nextSourceHandle s"] by (cases "sources s (nextSourceHandle s)") auto
  have 4: "sourcesInv ?s"
  proof (rule sourcesI)
    fix k r assume a: "map_of (instances ?s) k = Some r"
    then have b: "map_of (instances s) k = Some r" by (simp add: js_load_audio_def)
    show "sourceHandle (objs ?s r) < nextSourceHandle ?s"
      using sourcesD(1)[OF h(4) b] by (simp add: js_load_audio_def)
    show "sourceHandle (objs ?s r) \<notin> set (decoding ?s)"
      using sourcesD(1,2)[OF h(4) b] by (simp add: js_load_audio_def)
  next
    fix d assume a: "d \<in> set (decoding ?s)"
    then have b: "d \<in> set (decoding s) \<or> d = nextSourceHandle s" by (auto simp: js_load_audio_def)
    show "d < nextSourceHandle ?s" using b sourcesD(3)[OF h(4), of d] by (auto simp: js_load_audio_def)
    show "sources ?s d = None" using b sourcesD(4)[OF h(4), of d] n by (auto simp: js_load_audio_def)
  next
    fix k src assume "sources ?s k = Some src"
    then have "sources s k = Some src" by (simp add: js_load_audio_def)
    from sourcesD(5)[OF h(4) this] show "k < nextSourceHandle ?s" by (simp add: js_load_audio_def)
  qed
  show ?thesis using 1 2 3 4 by (simp add: wellFormed_def)
qed

lemma wf_decodeResolved: assumes "wellFormed s" shows "wellFormed (decodeResolved k b d s)"
proof (cases "k \<in> set (decoding s)")
  case False then show ?thesis using assms by (simp add: decodeResolved_def)
next
  case True
  let ?s = "decodeResolved k b d s"
  have eq: "?s = s\<lparr>decoding := removeAll k (decoding s),
             sources := (sources s)(k \<mapsto> \<lparr>buffer = b, duration = d\<rparr>)\<rparr>"
    using True by (simp add: decodeResolved_def)
  note h = wfD[OF assms]
  have 1: "hooksInv ?s" by (rule hooksInv_frame[OF h(1)]) (simp_all add: eq view_defs)
  have 2: "handlesInv ?s" by (rule handlesInv_frame[OF h(2)]) (simp_all add: eq)
  have 3: "timerInv ?s" using h(3) by (simp add: timerInv_def eq)
  have 4: "sourcesInv ?s"
  proof (rule sourcesI)
    fix k' r assume a: "map_of (instances ?s) k' = Some r"
    then have b: "map_of (instances s) k' = Some r" by (simp add: eq)
    show "sourceHandle (objs ?s r) < nextSourceHandle ?s"
      using sourcesD(1)[OF h(4) b] by (simp add: eq)
    show "sourceHandle (objs ?s r) \<notin> set (decoding ?s)"
      using sourcesD(2)[OF h(4) b] by (simp add: eq)
  next
    fix e assume a: "e \<in> set (decoding ?s)"
    then have b: "e \<in> set (decoding s)" "e \<noteq> k" by (auto simp: eq)
    show "e < nextSourceHandle ?s" using sourcesD(3)[OF h(4) b(1)] by (simp add: eq)
    show "sources ?s e = None" using sourcesD(4)[OF h(4) b(1)] b(2) by (simp add: eq)
  next
    fix k' src assume a: "sources ?s k' = Some src"
    show "k' < nextSourceHandle ?s"
    proof (cases "k' = k")
      case True
      then show ?thesis using sourcesD(3)[OF h(4) \<open>k \<in> set (decoding s)\<close>] by (simp add: eq)
    next
      case False
      then have "sources s k' = Some src" using a by (simp add: eq)
      from sourcesD(5)[OF h(4) this] show ?thesis by (simp add: eq)
    qed
  qed
  show ?thesis using 1 2 3 4 by (simp add: wellFormed_def)
qed

lemma wf_decodeRejected: assumes "wellFormed s" shows "wellFormed (decodeRejected k s)"
proof -
  let ?s = "decodeRejected k s"
  note h = wfD[OF assms]
  have 1: "hooksInv ?s" by (rule hooksInv_frame[OF h(1)]) (simp_all add: decodeRejected_def view_defs)
  have 2: "handlesInv ?s" by (rule handlesInv_frame[OF h(2)]) (simp_all add: decodeRejected_def)
  have 3: "timerInv ?s" using h(3) by (simp add: timerInv_def decodeRejected_def)
  have 4: "sourcesInv ?s"
  proof (rule sourcesI)
    fix k' r assume a: "map_of (instances ?s) k' = Some r"
    then have b: "map_of (instances s) k' = Some r" by (simp add: decodeRejected_def)
    show "sourceHandle (objs ?s r) < nextSourceHandle ?s"
      using sourcesD(1)[OF h(4) b] by (simp add: decodeRejected_def)
    show "sourceHandle (objs ?s r) \<notin> set (decoding ?s)"
      using sourcesD(2)[OF h(4) b] by (simp add: decodeRejected_def)
  next
    fix e assume a: "e \<in> set (decoding ?s)"
    then have b: "e \<in> set (decoding s)" by (auto simp: decodeRejected_def)
    show "e < nextSourceHandle ?s" using sourcesD(3)[OF h(4) b] by (simp add: decodeRejected_def)
    show "sources ?s e = None" using sourcesD(4)[OF h(4) b] by (simp add: decodeRejected_def)
  next
    fix k' src assume a: "sources ?s k' = Some src"
    then have "sources s k' = Some src" by (simp add: decodeRejected_def)
    from sourcesD(5)[OF h(4) this] show "k' < nextSourceHandle ?s" by (simp add: decodeRejected_def)
  qed
  show ?thesis using 1 2 3 4 by (simp add: wellFormed_def)
qed

lemma wf_destroyAudio: assumes "wellFormed s" shows "wellFormed (destroyAudio k s)"
proof -
  let ?s = "destroyAudio k s"
  note h = wfD[OF assms]
  have 1: "hooksInv ?s" by (rule hooksInv_frame[OF h(1)]) (simp_all add: destroyAudio_def view_defs)
  have 2: "handlesInv ?s" by (rule handlesInv_frame[OF h(2)]) (simp_all add: destroyAudio_def)
  have 3: "timerInv ?s" using h(3) by (simp add: timerInv_def destroyAudio_def)
  have 4: "sourcesInv ?s"
  proof (rule sourcesI)
    fix k' r assume a: "map_of (instances ?s) k' = Some r"
    then have b: "map_of (instances s) k' = Some r" by (simp add: destroyAudio_def)
    show "sourceHandle (objs ?s r) < nextSourceHandle ?s"
      using sourcesD(1)[OF h(4) b] by (simp add: destroyAudio_def)
    show "sourceHandle (objs ?s r) \<notin> set (decoding ?s)"
      using sourcesD(2)[OF h(4) b] by (simp add: destroyAudio_def)
  next
    fix e assume a: "e \<in> set (decoding ?s)"
    then have b: "e \<in> set (decoding s)" by (auto simp: destroyAudio_def)
    show "e < nextSourceHandle ?s" using sourcesD(3)[OF h(4) b] by (simp add: destroyAudio_def)
    show "sources ?s e = None" using sourcesD(4)[OF h(4) b] by (simp add: destroyAudio_def)
  next
    fix k' src assume a: "sources ?s k' = Some src"
    then have "sources s k' = Some src" by (simp add: destroyAudio_def split: if_splits)
    from sourcesD(5)[OF h(4) this] show "k' < nextSourceHandle ?s" by (simp add: destroyAudio_def)
  qed
  show ?thesis using 1 2 3 4 by (simp add: wellFormed_def)
qed

lemma wf_shrink:
  assumes wf: "wellFormed s" and hk: "hooksInv s'"
    and tbl: "\<And>k. map_of (instances s') k = None \<or> map_of (instances s') k = map_of (instances s) k"
    and dist: "distinct (map fst (instances s'))"
    and same: "pendingPlays s' = pendingPlays s" "nextInstanceHandle s' = nextInstanceHandle s"
      "nextObj s' = nextObj s" "timeouts s' = timeouts s" "sources s' = sources s"
      "decoding s' = decoding s" "nextSourceHandle s' = nextSourceHandle s"
    and sh: "\<And>q. sourceHandle (objs s' q) = sourceHandle (objs s q)"
  shows "wellFormed s'"
proof -
  note h = wfD[OF wf]
  have sub: "map_of (instances s) k = Some r" if "map_of (instances s') k = Some r" for k r
    using tbl[of k] that by auto
  have 2: "handlesInv s'"
  proof (rule handlesI)
    show "0 < nextInstanceHandle s'" using handlesD(1)[OF h(2)] by (simp add: same)
    show "distinct (map fst (instances s'))" by (rule dist)
    show "distinct (map p_handle (pendingPlays s'))" using handlesD(7)[OF h(2)] by (simp add: same)
  next
    fix k r assume "map_of (instances s') k = Some r"
    from sub[OF this] show "k < nextInstanceHandle s'" "r < nextObj s'"
      using handlesD(3,4)[OF h(2)] by (simp_all add: same)
  next
    fix p assume "p \<in> set (pendingPlays s')"
    then have p: "p \<in> set (pendingPlays s)" by (simp add: same)
    show "p_handle p < nextInstanceHandle s'" using handlesD(5)[OF h(2) p] by (simp add: same)
    show "map_of (instances s') (p_handle p) = None"
      using handlesD(6)[OF h(2) p] tbl[of "p_handle p"] by auto
  qed
  have 3: "timerInv s'" using h(3) by (simp add: timerInv_def same)
  have 4: "sourcesInv s'"
  proof (rule sourcesI)
    fix k r assume "map_of (instances s') k = Some r"
    from sub[OF this] show "sourceHandle (objs s' r) < nextSourceHandle s'"
       "sourceHandle (objs s' r) \<notin> set (decoding s')"
      using sourcesD(1,2)[OF h(4)] by (simp_all add: same sh)
  next
    fix d assume "d \<in> set (decoding s')"
    then have d: "d \<in> set (decoding s)" by (simp add: same)
    show "d < nextSourceHandle s'" "sources s' d = None"
      using sourcesD(3,4)[OF h(4) d] by (simp_all add: same)
  next
    fix k src assume "sources s' k = Some src"
    then show "k < nextSourceHandle s'" using sourcesD(5)[OF h(4), of k src] by (simp add: same)
  qed
  show ?thesis using hk 2 3 4 by (simp add: wellFormed_def)
qed

lemma wf_pauseAudio: assumes wf: "wellFormed s" shows "wellFormed (pauseAudio h s)"
proof (cases "\<exists>r. map_of (instances s) h = Some r \<and> \<not> paused (objs s r) \<and> \<not> stopped (objs s r)")
  case False
  then have "pauseAudio h s = s" by (auto simp: pauseAudio_def split: option.splits)
  then show ?thesis using wf by simp
next
  case True
  then obtain r where r: "map_of (instances s) h = Some r" "\<not> paused (objs s r)" "\<not> stopped (objs s r)"
    by blast
  note eq = pauseAudio_eq[OF r]
  note h = wfD[OF wf]
  let ?n0 = "sourceNode (objs s r)"
  have hk: "hooksInv (pauseAudio h s)"
  proof (rule hooksI)
    fix n r2 h2
    assume cf: "canFire (pauseAudio h s) n" and on: "n_onended (sourceNodes (pauseAudio h s) n) = Some (r2, h2)"
    have ne: "n \<noteq> ?n0" using cf by (auto simp: eq canFire_def)
    then have cf0: "canFire s n" and on0: "n_onended (sourceNodes s n) = Some (r2, h2)"
      using cf on by (simp_all add: eq canFire_def)
    note d = hooksD[OF h(1) cf0 on0]
    have r2: "r2 \<noteq> r" using d(4) ne by auto
    show "map_of (instances (pauseAudio h s)) h2 = Some r2 \<and> \<not> paused (objs (pauseAudio h s) r2)
       \<and> \<not> stopped (objs (pauseAudio h s) r2) \<and> sourceNode (objs (pauseAudio h s) r2) = n"
      using d r2 by (simp add: eq)
  qed
  show ?thesis
    by (rule wf_shrink[OF wf hk]) (simp_all add: eq handlesD(2)[OF h(2)])
qed

lemma wf_resumeAudio: assumes wf: "wellFormed s" shows "wellFormed (resumeAudio h s)"
proof (cases "\<exists>r src. map_of (instances s) h = Some r \<and> paused (objs s r) \<and> \<not> stopped (objs s r)
     \<and> sources s (sourceHandle (objs s r)) = Some src")
  case False
  then have "resumeAudio h s = s" by (auto simp: resumeAudio_def split: option.splits)
  then show ?thesis using wf by simp
next
  case True
  then obtain r src where r: "map_of (instances s) h = Some r" "paused (objs s r)" "\<not> stopped (objs s r)"
    "sources s (sourceHandle (objs s r)) = Some src"
    by blast
  note eq = resumeAudio_eq[OF r]
  note h = wfD[OF wf]
  let ?k = "nextNode s"
  have hk: "hooksInv (resumeAudio h s)"
  proof (rule hooksI)
    fix n r2 h2
    assume cf: "canFire (resumeAudio h s) n" and on: "n_onended (sourceNodes (resumeAudio h s) n) = Some (r2, h2)"
    show "map_of (instances (resumeAudio h s)) h2 = Some r2 \<and> \<not> paused (objs (resumeAudio h s) r2)
       \<and> \<not> stopped (objs (resumeAudio h s) r2) \<and> sourceNode (objs (resumeAudio h s) r2) = n"
    proof (cases "n = ?k")
      case True
      then have "r2 = r" "h2 = h" using on by (simp_all add: eq)
      then show ?thesis using r True by (simp add: eq)
    next
      case False
      then have cf0: "canFire s n" and on0: "n_onended (sourceNodes s n) = Some (r2, h2)"
        using cf on by (simp_all add: eq canFire_def)
      note d = hooksD[OF h(1) cf0 on0]
      have r2: "r2 \<noteq> r" using d(2) r(2) by auto
      show ?thesis using d r2 by (simp add: eq)
    qed
  qed
  show ?thesis
    by (rule wf_shrink[OF wf hk]) (simp_all add: eq handlesD(2)[OF h(2)])
qed

lemma stopInstance_eq:
  assumes "\<not> stopped (objs s r)"
  shows "stopInstance r s = s\<lparr>objs := (objs s)(r := (objs s r)\<lparr>stopped := True\<rparr>),
       sourceNodes := (sourceNodes s)(sourceNode (objs s r) :=
          (sourceNodes s (sourceNode (objs s r)))\<lparr>n_stopCalled := True\<rparr>),
       connections := disconnectAll (objs s r) (connections s)\<rparr>"
  using assms
  by (intro engine.equality)
     (simp_all add: stopInstance_def host_defs Let_def disconnectAll_def split: option.splits)

lemma stopInstance_stopped: "stopped (objs s r) \<Longrightarrow> stopInstance r s = s"
  by (simp add: stopInstance_def)

lemma stopAudio_eq:
  assumes "map_of (instances s) h = Some r"
  shows "stopAudio h s =
     (if stopped (objs s r) then s\<lparr>instances := AList.delete h (instances s)\<rparr>
      else s\<lparr>objs := (objs s)(r := (objs s r)\<lparr>stopped := True\<rparr>),
       sourceNodes := (sourceNodes s)(sourceNode (objs s r) :=
          (sourceNodes s (sourceNode (objs s r)))\<lparr>n_stopCalled := True\<rparr>),
       connections := disconnectAll (objs s r) (connections s),
       instances := AList.delete h (instances s)\<rparr>)"
  using assms by (simp add: stopAudio_def Let_def stopInstance_stopped stopInstance_eq)

lemma wf_stopAudio: assumes wf: "wellFormed s" shows "wellFormed (stopAudio h s)"
proof (cases "map_of (instances s) h")
  case None
  then show ?thesis using wf by (simp add: stopAudio_def)
next
  case (Some r)
  note eq = stopAudio_eq[OF Some]
  note h = wfD[OF wf]
  let ?s = "stopAudio h s"
  let ?n0 = "sourceNode (objs s r)"
  have hk: "hooksInv ?s"
  proof (rule hooksI)
    fix n r2 h2
    assume cf: "canFire ?s n" and on: "n_onended (sourceNodes ?s n) = Some (r2, h2)"
    have cf0: "canFire s n" and on0: "n_onended (sourceNodes s n) = Some (r2, h2)"
      using cf on by (auto simp: eq canFire_def split: if_splits)
    note d = hooksD[OF h(1) cf0 on0]
    have r2: "r2 \<noteq> r"
    proof
      assume "r2 = r"
      then have "\<not> stopped (objs s r)" "n = ?n0" using d by auto
      then show False using cf by (simp add: eq canFire_def)
    qed
    then have h2: "h2 \<noteq> h" using d(1) Some by auto
    show "map_of (instances ?s) h2 = Some r2 \<and> \<not> paused (objs ?s r2)
       \<and> \<not> stopped (objs ?s r2) \<and> sourceNode (objs ?s r2) = n"
      using d r2 h2 by (simp add: eq)
  qed
  show ?thesis
    by (rule wf_shrink[OF wf hk])
       (auto simp: eq delete_conv' distinct_delete handlesD(2)[OF h(2)])
qed

lemma canEnd_canFire: "canEnd s n \<Longrightarrow> canFire s n"
  by (simp add: canEnd_def canFire_def Let_def)

lemma nodeEnded_eq:
  "nodeEnded n s =
     (if canEnd s n
      then (case n_onended (sourceNodes s n) of
              None \<Rightarrow> s\<lparr>sourceNodes := (sourceNodes s)(n := (sourceNodes s n)\<lparr>n_ended := True\<rparr>)\<rparr>
            | Some (r, h) \<Rightarrow>
                (if \<not> stopped (objs s r) \<and> \<not> loop (objs s r)
                 then s\<lparr>sourceNodes := (sourceNodes s)(n := (sourceNodes s n)\<lparr>n_ended := True\<rparr>),
                        finishedCallbacks := (if hasCallback (objs s r)
                            then finishedCallbacks s @ [h] else finishedCallbacks s),
                        instances := AList.delete h (instances s)\<rparr>
                 else s\<lparr>sourceNodes := (sourceNodes s)(n := (sourceNodes s n)\<lparr>n_ended := True\<rparr>)\<rparr>))
      else s)"
  by (simp add: nodeEnded_def onended_def host_defs Let_def split: option.splits)

lemma wf_nodeEnded: assumes wf: "wellFormed s" shows "wellFormed (nodeEnded n s)"
proof (cases "canEnd s n")
  case False
  then show ?thesis using wf by (simp add: nodeEnded_def)
next
  case True
  note eq = nodeEnded_eq[of n s]
  note h = wfD[OF wf]
  let ?s = "nodeEnded n s"
  have hk: "hooksInv ?s"
  proof (rule hooksI)
    fix n' r2 h2
    assume cf: "canFire ?s n'" and on: "n_onended (sourceNodes ?s n') = Some (r2, h2)"
    have ne: "n' \<noteq> n" using cf True
      by (auto simp: eq canFire_def split: option.splits if_splits)
    have cf0: "canFire s n'" and on0: "n_onended (sourceNodes s n') = Some (r2, h2)"
      using cf on True ne by (auto simp: eq canFire_def split: option.splits if_splits)
    note d = hooksD[OF h(1) cf0 on0]
    have h2: "h2 \<noteq> h'" if "n_onended (sourceNodes s n) = Some (r', h')" for r' h'
    proof
      assume "h2 = h'"
      with hooksD(1,4)[OF h(1) canEnd_canFire[OF True] that] d(1,4) ne show False by auto
    qed
    show "map_of (instances ?s) h2 = Some r2 \<and> \<not> paused (objs ?s r2)
       \<and> \<not> stopped (objs ?s r2) \<and> sourceNode (objs ?s r2) = n'"
      using d h2 True by (auto simp: eq split: option.splits)
  qed
  show ?thesis
    by (rule wf_shrink[OF wf hk])
       (auto simp: eq delete_conv' distinct_delete handlesD(2)[OF h(2)] split: option.splits)
qed

lemma wf_iff: "wellFormed s = (wellFormed0 s \<and> timerInv s)"
  by (auto simp: wellFormed_def wellFormed0_def)

lemma wf0D:
  assumes "wellFormed0 s"
  shows "hooksInv s" "handlesInv s" "sourcesInv s"
  using assms by (simp_all add: wellFormed0_def)

lemma instances_stopInstance [simp]: "instances (stopInstance r s) = instances s"
  by (cases "stopped (objs s r)") (simp_all add: stopInstance_stopped stopInstance_eq)

lemma stopAll_fold:
  assumes "distinct (map fst es)"
    and "\<And>h r. (h, r) \<in> set es \<Longrightarrow> map_of (instances t) h = Some r"
    and "P t"
    and stepP: "\<And>u h r. P u \<Longrightarrow> map_of (instances u) h = Some r \<Longrightarrow>
           bh = 0 \<or> busHandle (objs u r) = bh \<Longrightarrow> P (stopAudio h u)"
  shows "P (fold (stopAllBody bh) es t)"
  using assms(1-3)
proof (induction es arbitrary: t)
  case Nil
  then show ?case by simp
next
  case (Cons e es)
  obtain h r where e: "e = (h, r)" by (cases e)
  have hr: "map_of (instances t) h = Some r" using Cons.prems(2)[of h r] e by simp
  let ?t = "stopAllBody bh e t"
  have st: "?t = (if bh = 0 \<or> busHandle (objs t r) = bh then stopAudio h t else t)"
    using hr by (simp add: stopAudio_def stopAllBody_def e)
  have P: "P ?t" using Cons.prems(3) stepP[OF Cons.prems(3) hr] by (simp add: st)
  have d: "distinct (map fst es)" using Cons.prems(1) by simp
  have m: "map_of (instances ?t) h' = Some r'" if "(h', r') \<in> set es" for h' r'
  proof -
    have "h' \<noteq> h" using Cons.prems(1) that e by (auto simp: image_iff)
    moreover have "map_of (instances t) h' = Some r'" using Cons.prems(2)[of h' r'] that by simp
    ultimately show ?thesis using hr by (simp add: st stopAudio_def Let_def delete_conv')
  qed
  from Cons.IH[OF d m P] show ?case by simp
qed

lemma stopAllAudio_induct:
  assumes "distinct (map fst (instances s))" "P s"
    and "\<And>u h r. P u \<Longrightarrow> map_of (instances u) h = Some r \<Longrightarrow>
           bh = 0 \<or> busHandle (objs u r) = bh \<Longrightarrow> P (stopAudio h u)"
  shows "P (stopAllAudio bh s)"
  unfolding stopAllAudio_def
proof (rule stopAll_fold[where P = P])
  show "distinct (map fst (instances s))" by (rule assms(1))
  show "P s" by (rule assms(2))
  show "map_of (instances s) h = Some r" if "(h, r) \<in> set (instances s)" for h r
    using that assms(1) by simp
  show "P (stopAudio h u)" if "P u" "map_of (instances u) h = Some r"
      "bh = 0 \<or> busHandle (objs u r) = bh" for u h r
    using that by (rule assms(3))
qed

lemma wf_stopAllAudio: assumes "wellFormed s" shows "wellFormed (stopAllAudio bh s)"
proof (rule stopAllAudio_induct[where P = wellFormed])
  show "distinct (map fst (instances s))" by (rule handlesD(2)[OF wfD(2)[OF assms]])
  show "wellFormed s" by (rule assms)
  show "wellFormed (stopAudio h u)" if "wellFormed u" for u h using that by (rule wf_stopAudio)
qed

lemma wf0_playInternal:
  assumes wf: "wellFormed0 t" and fresh: "map_of (instances t) (p_handle p) = None"
      "p_handle p < nextInstanceHandle t"
    and np: "\<And>q. q \<in> set (pendingPlays t) \<Longrightarrow> p_handle q \<noteq> p_handle p"
    and src: "sources t (p_sourceHandle p) = Some src"
  shows "wellFormed0 (playAudioInternal p src t)"
proof -
  let ?s = "playAudioInternal p src t"
  note eq = playAudioInternal_eq[of p src t]
  note h = wf0D[OF wf]
  have tb: "map_of (instances ?s) = (map_of (instances t))(p_handle p \<mapsto> nextObj t)"
    by (simp add: eq update_conv')
  have ob: "objs ?s = (objs t)(nextObj t := newInstance p t)" by (simp add: eq)
  have old: "k \<noteq> p_handle p \<and> r < nextObj t \<and> map_of (instances t) k = Some r"
    if "map_of (instances ?s) k = Some r" "k \<noteq> p_handle p \<or> r \<noteq> nextObj t" for k r
    using that handlesD(4)[OF h(2), of k r] by (auto simp: tb split: if_splits)
  have 1: "hooksInv ?s"
  proof (rule hooksI)
    fix n r2 h2
    assume cf: "canFire ?s n" and on: "n_onended (sourceNodes ?s n) = Some (r2, h2)"
    show "map_of (instances ?s) h2 = Some r2 \<and> \<not> paused (objs ?s r2)
       \<and> \<not> stopped (objs ?s r2) \<and> sourceNode (objs ?s r2) = n"
    proof (cases "n = nextNode t")
      case True
      then have "r2 = nextObj t" "h2 = p_handle p" using on by (simp_all add: eq)
      then show ?thesis using True by (simp add: tb ob newInstance_def)
    next
      case False
      then have cf0: "canFire t n" and on0: "n_onended (sourceNodes t n) = Some (r2, h2)"
        using cf on by (simp_all add: eq canFire_def)
      note d = hooksD[OF h(1) cf0 on0]
      have "h2 \<noteq> p_handle p" using d(1) fresh(1) by auto
      moreover have "r2 \<noteq> nextObj t" using handlesD(4)[OF h(2) d(1)] by simp
      ultimately show ?thesis using d by (simp add: tb ob)
    qed
  qed
  have 2: "handlesInv ?s"
  proof (rule handlesI)
    show "0 < nextInstanceHandle ?s" using handlesD(1)[OF h(2)] by (simp add: eq)
    show "distinct (map fst (instances ?s))" using handlesD(2)[OF h(2)] by (simp add: eq distinct_update)
    show "distinct (map p_handle (pendingPlays ?s))" using handlesD(7)[OF h(2)] by (simp add: eq)
  next
    fix k r assume a: "map_of (instances ?s) k = Some r"
    show "k < nextInstanceHandle ?s"
      using a fresh(2) handlesD(3)[OF h(2), of k r] by (auto simp: eq update_conv' split: if_splits)
    show "r < nextObj ?s"
      using a handlesD(4)[OF h(2), of k r] by (auto simp: eq update_conv' split: if_splits)
  next
    fix q assume "q \<in> set (pendingPlays ?s)"
    then have q: "q \<in> set (pendingPlays t)" by (simp add: eq)
    show "p_handle q < nextInstanceHandle ?s" using handlesD(5)[OF h(2) q] by (simp add: eq)
    show "map_of (instances ?s) (p_handle q) = None"
      using handlesD(6)[OF h(2) q] np[OF q] by (simp add: tb)
  qed
  have sh: "p_sourceHandle p < nextSourceHandle t" "p_sourceHandle p \<notin> set (decoding t)"
    using sourcesD(5)[OF h(3) src] sourcesD(4)[OF h(3), of "p_sourceHandle p"] src by auto
  have 3: "sourcesInv ?s"
  proof (rule sourcesI)
    fix k r assume a: "map_of (instances ?s) k = Some r"
    show "sourceHandle (objs ?s r) < nextSourceHandle ?s"
    proof (cases "r = nextObj t")
      case True then show ?thesis using sh by (simp add: ob eq newInstance_def)
    next
      case False
      with old[OF a] sourcesD(1)[OF h(3), of k r] show ?thesis by (simp add: ob eq)
    qed
    show "sourceHandle (objs ?s r) \<notin> set (decoding ?s)"
    proof (cases "r = nextObj t")
      case True then show ?thesis using sh by (simp add: ob eq newInstance_def)
    next
      case False
      with old[OF a] sourcesD(2)[OF h(3), of k r] show ?thesis by (simp add: ob eq)
    qed
  next
    fix d assume "d \<in> set (decoding ?s)"
    then have d: "d \<in> set (decoding t)" by (simp add: eq)
    show "d < nextSourceHandle ?s" "sources ?s d = None"
      using sourcesD(3,4)[OF h(3) d] by (simp_all add: eq)
  next
    fix k src' assume "sources ?s k = Some src'"
    then show "k < nextSourceHandle ?s" using sourcesD(5)[OF h(3), of k src'] by (simp add: eq)
  qed
  show ?thesis using 1 2 3 by (simp add: wellFormed0_def)
qed

lemma wf0_frame:
  assumes "wellFormed0 s" "instances s' = instances s" "pendingPlays s' = pendingPlays s"
    "nextInstanceHandle s' = nextInstanceHandle s" "nextObj s' = nextObj s"
    "sources s' = sources s"
    "decoding s' = decoding s" "nextSourceHandle s' = nextSourceHandle s"
    "objs s' = objs s" "sourceNodes s' = sourceNodes s"
  shows "wellFormed0 s'"
  using assms(1) hooksInv_frame[of s s'] handlesInv_frame[of s s'] sourcesInv_frame[of s s']
  unfolding wellFormed0_def by (simp add: assms(2-10) view_defs)

lemma wf0_pending:
  assumes wf: "wellFormed0 (s\<lparr>pendingPlays := xs\<rparr>)"
    and sub: "p_handle ` set ys \<subseteq> p_handle ` set xs"
    and dist: "distinct (map p_handle ys)"
  shows "wellFormed0 (s\<lparr>pendingPlays := ys\<rparr>)"
proof -
  note h = wf0D[OF wf]
  have 1: "hooksInv (s\<lparr>pendingPlays := ys\<rparr>)"
    by (rule hooksInv_frame[OF h(1)]) (simp_all add: view_defs)
  have 3: "sourcesInv (s\<lparr>pendingPlays := ys\<rparr>)"
    by (rule sourcesInv_frame[OF h(3)]) (simp_all add: view_defs)
  have 2: "handlesInv (s\<lparr>pendingPlays := ys\<rparr>)"
  proof (rule handlesI)
    show "0 < nextInstanceHandle (s\<lparr>pendingPlays := ys\<rparr>)" using handlesD(1)[OF h(2)] by simp
    show "distinct (map fst (instances (s\<lparr>pendingPlays := ys\<rparr>)))" using handlesD(2)[OF h(2)] by simp
    show "distinct (map p_handle (pendingPlays (s\<lparr>pendingPlays := ys\<rparr>)))" using dist by simp
  next
    fix k r assume "map_of (instances (s\<lparr>pendingPlays := ys\<rparr>)) k = Some r"
    then have a: "map_of (instances (s\<lparr>pendingPlays := xs\<rparr>)) k = Some r" by simp
    show "k < nextInstanceHandle (s\<lparr>pendingPlays := ys\<rparr>)" "r < nextObj (s\<lparr>pendingPlays := ys\<rparr>)"
      using handlesD(3,4)[OF h(2) a] by simp_all
  next
    fix q assume "q \<in> set (pendingPlays (s\<lparr>pendingPlays := ys\<rparr>))"
    then have "p_handle q \<in> p_handle ` set xs" using sub by auto
    then obtain q' where q': "q' \<in> set (pendingPlays (s\<lparr>pendingPlays := xs\<rparr>))" "p_handle q' = p_handle q"
      by auto
    show "p_handle q < nextInstanceHandle (s\<lparr>pendingPlays := ys\<rparr>)"
      "map_of (instances (s\<lparr>pendingPlays := ys\<rparr>)) (p_handle q) = None"
      using handlesD(5,6)[OF h(2) q'(1)] q'(2) by simp_all
  qed
  show ?thesis using 1 2 3 by (simp add: wellFormed0_def)
qed

lemma outputFor_pending [simp]: "outputFor (s\<lparr>pendingPlays := xs\<rparr>) bh = outputFor s bh"
  by (simp add: outputFor_def split: option.splits)

lemma newInstance_pending [simp]: "newInstance p (s\<lparr>pendingPlays := xs\<rparr>) = newInstance p s"
  by (simp add: newInstance_def)

lemma playInternal_pending:
  "(playAudioInternal p src s)\<lparr>pendingPlays := xs\<rparr> = playAudioInternal p src (s\<lparr>pendingPlays := xs\<rparr>)"
  by (rule engine.equality) (simp_all add: playAudioInternal_eq)

lemma sweep_wf0:
  assumes "wellFormed0 (s\<lparr>pendingPlays := still @ ps\<rparr>)"
  shows "wellFormed0 ((snd (sweepPending ps still s))\<lparr>pendingPlays := fst (sweepPending ps still s)\<rparr>)"
  using assms
proof (induction ps arbitrary: still s)
  case Nil
  then show ?case by simp
next
  case (Cons p rest)
  note wf = Cons.prems
  note h = wf0D[OF wf]
  have dist: "distinct (map p_handle (still @ p # rest))" using handlesD(7)[OF h(2)] by simp
  show ?case
  proof (cases "sources s (p_sourceHandle p)")
    case (Some src)
    let ?t = "s\<lparr>pendingPlays := still @ rest\<rparr>"
    have wt: "wellFormed0 ?t"
      by (rule wf0_pending[OF wf]) (use dist in auto)
    have pin: "p \<in> set (pendingPlays (s\<lparr>pendingPlays := still @ p # rest\<rparr>))" by simp
    have f1: "map_of (instances ?t) (p_handle p) = None" "p_handle p < nextInstanceHandle ?t"
      using handlesD(5,6)[OF h(2) pin] by simp_all
    have f2: "p_handle q \<noteq> p_handle p" if "q \<in> set (pendingPlays ?t)" for q
    proof -
      have "p_handle q \<in> p_handle ` set (still @ rest)" using that by simp
      then show ?thesis using dist by auto
    qed
    have f3: "sources ?t (p_sourceHandle p) = Some src" using Some by simp
    have "wellFormed0 (playAudioInternal p src ?t)"
      by (rule wf0_playInternal[OF wt f1 f2 f3])
    then have "wellFormed0 ((playAudioInternal p src s)\<lparr>pendingPlays := still @ rest\<rparr>)"
      by (simp add: playInternal_pending)
    from Cons.IH[OF this] show ?thesis using Some by simp
  next
    case None
    let ?p = "p\<lparr>p_retries := p_retries p + 1\<rparr>"
    show ?thesis
    proof (cases "p_retries ?p < 10")
      case True
      have "wellFormed0 (s\<lparr>pendingPlays := (still @ [?p]) @ rest\<rparr>)"
        by (rule wf0_pending[OF wf]) (use dist in auto)
      from Cons.IH[OF this] show ?thesis using None True by (simp add: Let_def)
    next
      case False
      have "wellFormed0 (s\<lparr>pendingPlays := still @ rest\<rparr>)"
        by (rule wf0_pending[OF wf]) (use dist in auto)
      from Cons.IH[OF this] show ?thesis using None False by (simp add: Let_def)
    qed
  qed
qed

lemma sweep_timeouts: "timeouts (snd (sweepPending ps still s)) = timeouts s"
  by (induction ps arbitrary: still s) (auto simp: playAudioInternal_eq Let_def split: option.splits)

lemma wf_timeoutFired: assumes wf: "wellFormed s" shows "wellFormed (timeoutFired s)"
proof (cases "timeouts s = 0")
  case True
  then show ?thesis using wf by (simp add: timeoutFired_def)
next
  case False
  have w0: "wellFormed0 s" and ti: "timerInv s" using wf by (simp_all add: wf_iff)
  let ?s0 = "s\<lparr>timeouts := timeouts s - 1\<rparr>"
  have t0: "timeouts ?s0 = 0" using ti False by (simp add: timerInv_def split: if_splits)
  have "wellFormed0 ?s0" by (rule wf0_frame[OF w0]) simp_all
  then have "wellFormed0 (?s0\<lparr>pendingPlays := [] @ pendingPlays ?s0\<rparr>)" by simp
  from sweep_wf0[OF this] have
    a: "wellFormed0 ((snd (sweepPending (pendingPlays s) [] ?s0))\<lparr>pendingPlays :=
           fst (sweepPending (pendingPlays s) [] ?s0)\<rparr>)" by simp
  obtain st s1 where r: "sweepPending (pendingPlays s) [] ?s0 = (st, s1)"
    by (cases "sweepPending (pendingPlays s) [] ?s0")
  have t1: "timeouts s1 = 0"
    using sweep_timeouts[of "pendingPlays s" "[]" ?s0] t0 r by simp
  have a': "wellFormed0 (s1\<lparr>pendingPlays := st\<rparr>)" using a r by simp
  have eq: "timeoutFired s = (if st \<noteq> [] then s1\<lparr>pendingPlays := st, timeouts := 1\<rparr>
       else s1\<lparr>pendingPlays := st\<rparr>)"
    using False r t1 by (simp add: timeoutFired_def processPendingPlays_def Let_def)
  have b: "wellFormed0 (timeoutFired s)"
    unfolding eq by (auto intro: wf0_frame[OF a'])
  have c: "timerInv (timeoutFired s)"
    unfolding eq using t1 by (simp add: timerInv_def)
  show ?thesis using b c by (simp add: wf_iff)
qed

lemma wf_playAudio:
  assumes wf: "wellFormed s"
  shows "wellFormed (snd (playAudio sh bh vol pan pit lp del spat px py mind maxd cb s))"
proof (cases "initialized s")
  case False
  then show ?thesis using wf by (simp add: playAudio_def)
next
  case True
  have w0: "wellFormed0 s" and ti: "timerInv s" using wf by (simp_all add: wf_iff)
  note h = wf0D[OF w0]
  let ?h = "nextInstanceHandle s"
  let ?p = "\<lparr>p_handle = ?h, p_sourceHandle = sh, p_busHandle = bh,
                  p_volume = vol, p_pan = pan, p_pitch = pit, p_loop = lp, p_delay = del,
                  p_isSpatial = spat, p_posX = px, p_posY = py, p_minDistance = mind,
                  p_maxDistance = maxd, p_hasCallback = cb, p_retries = 0\<rparr>"
  let ?s1 = "s\<lparr>nextInstanceHandle := Suc ?h\<rparr>"
  have nt: "map_of (instances s) ?h = None"
    using handlesD(3)[OF h(2), of ?h] by (cases "map_of (instances s) ?h") auto
  have np: "p_handle q \<noteq> ?h" if "q \<in> set (pendingPlays s)" for q
    using handlesD(5)[OF h(2) that] by simp
  have hk1: "hooksInv ?s1" by (rule hooksInv_frame[OF h(1)]) (simp_all add: view_defs)
  have so1: "sourcesInv ?s1" by (rule sourcesInv_frame[OF h(3)]) (simp_all add: view_defs)
  have ha1: "handlesInv (?s1\<lparr>pendingPlays := ys\<rparr>)"
    if "p_handle ` set ys \<subseteq> insert ?h (p_handle ` set (pendingPlays s))" "distinct (map p_handle ys)" for ys
  proof (rule handlesI)
    show "0 < nextInstanceHandle (?s1\<lparr>pendingPlays := ys\<rparr>)" by simp
    show "distinct (map fst (instances (?s1\<lparr>pendingPlays := ys\<rparr>)))" using handlesD(2)[OF h(2)] by simp
    show "distinct (map p_handle (pendingPlays (?s1\<lparr>pendingPlays := ys\<rparr>)))" using that(2) by simp
  next
    fix k r assume "map_of (instances (?s1\<lparr>pendingPlays := ys\<rparr>)) k = Some r"
    then have a: "map_of (instances s) k = Some r" by simp
    show "k < nextInstanceHandle (?s1\<lparr>pendingPlays := ys\<rparr>)" "r < nextObj (?s1\<lparr>pendingPlays := ys\<rparr>)"
      using handlesD(3,4)[OF h(2) a] by simp_all
  next
    fix q assume "q \<in> set (pendingPlays (?s1\<lparr>pendingPlays := ys\<rparr>))"
    then have "p_handle q = ?h \<or> p_handle q \<in> p_handle ` set (pendingPlays s)" using that(1) by auto
    then have "p_handle q < Suc ?h \<and> map_of (instances s) (p_handle q) = None"
      using nt handlesD(5,6)[OF h(2)] by (auto simp: less_Suc_eq)
    then show "p_handle q < nextInstanceHandle (?s1\<lparr>pendingPlays := ys\<rparr>)"
      "map_of (instances (?s1\<lparr>pendingPlays := ys\<rparr>)) (p_handle q) = None" by simp_all
  qed
  show ?thesis
  proof (cases "sources s sh")
    case None
    let ?s2 = "?s1\<lparr>pendingPlays := pendingPlays s @ [?p]\<rparr>"
    have eq: "snd (playAudio sh bh vol pan pit lp del spat px py mind maxd cb s) =
        (if pendingPlays s = [] then ?s2\<lparr>timeouts := Suc (timeouts s)\<rparr> else ?s2)"
      using True None by (simp add: playAudio_def Let_def)
    have "nextInstanceHandle s \<notin> p_handle ` set (pendingPlays s)"
    proof
      assume "nextInstanceHandle s \<in> p_handle ` set (pendingPlays s)"
      then obtain q where "q \<in> set (pendingPlays s)" "nextInstanceHandle s = p_handle q" by auto
      with np[of q] show False by simp
    qed
    then have d: "distinct (map p_handle (pendingPlays s @ [?p]))"
      using handlesD(7)[OF h(2)] by simp
    have "handlesInv ?s2" by (rule ha1) (use d in auto)
    moreover have "hooksInv ?s2" by (rule hooksInv_frame[OF hk1]) (simp_all add: view_defs)
    moreover have "sourcesInv ?s2" by (rule sourcesInv_frame[OF so1]) (simp_all add: view_defs)
    ultimately have w2: "wellFormed0 ?s2" by (simp add: wellFormed0_def)
    have b: "wellFormed0 (snd (playAudio sh bh vol pan pit lp del spat px py mind maxd cb s))"
      unfolding eq by (auto intro: wf0_frame[OF w2])
    have c: "timerInv (snd (playAudio sh bh vol pan pit lp del spat px py mind maxd cb s))"
      unfolding eq using ti by (simp add: timerInv_def)
    show ?thesis using b c by (simp add: wf_iff)
  next
    case (Some src)
    have eq: "snd (playAudio sh bh vol pan pit lp del spat px py mind maxd cb s) =
        playAudioInternal ?p src ?s1"
      using True Some by (simp add: playAudio_def Let_def)
    have "handlesInv (?s1\<lparr>pendingPlays := pendingPlays s\<rparr>)"
      by (rule ha1) (use handlesD(7)[OF h(2)] in auto)
    then have "handlesInv ?s1" by simp
    then have w1: "wellFormed0 ?s1" using hk1 so1 by (simp add: wellFormed0_def)
    have b: "wellFormed0 (playAudioInternal ?p src ?s1)"
      by (rule wf0_playInternal[OF w1]) (use nt np Some in auto)
    have c: "timerInv (playAudioInternal ?p src ?s1)"
      using ti by (simp add: timerInv_def playAudioInternal_eq)
    show ?thesis using b c by (simp add: wf_iff eq)
  qed
qed

lemma wf_step: "wellFormed s \<Longrightarrow> wellFormed (step e s)"
  by (cases e)
     (simp_all add: wf_load wf_decodeResolved wf_decodeRejected wf_destroyAudio wf_playAudio
        wf_stopAudio wf_pauseAudio wf_resumeAudio wf_stopAllAudio wf_setVolume wf_setPan
        wf_setPitch wf_setLooping wf_setPosition wf_createBus wf_destroyBus wf_busVolume
        wf_busMuted wf_listener wf_poll wf_timeoutFired wf_clock wf_nodeEnded)

lemma wf_run: "wellFormed s \<Longrightarrow> wellFormed (run es s)"
  unfolding run_def by (induction es arbitrary: s) (simp_all add: wf_step)

lemma wf_reachable: "wellFormed (run es init_engine)"
  by (rule wf_run[OF wf_init])

section \<open>Finished events, deferred plays and stranded instances\<close>

lemma fc_stopInstance [simp]: "finishedCallbacks (stopInstance r s) = finishedCallbacks s"
  by (cases "stopped (objs s r)") (simp_all add: stopInstance_stopped stopInstance_eq)

lemma fc_stopAudio [simp]: "finishedCallbacks (stopAudio h s) = finishedCallbacks s"
  by (cases "map_of (instances s) h") (simp_all add: stopAudio_def)

lemma fc_stopAllBody [simp]: "finishedCallbacks (stopAllBody bh e t) = finishedCallbacks t"
  by (cases e) (simp add: stopAllBody_def Let_def)

lemma fc_stopAllAudio [simp]: "finishedCallbacks (stopAllAudio bh s) = finishedCallbacks s"
proof -
  have "finishedCallbacks (fold (stopAllBody bh) es t) = finishedCallbacks t" for es t
    by (induction es arbitrary: t) simp_all
  then show ?thesis by (simp add: stopAllAudio_def)
qed

lemma fc_sweep [simp]: "finishedCallbacks (snd (sweepPending ps st s)) = finishedCallbacks s"
  by (induction ps arbitrary: st s) (auto simp: playAudioInternal_eq Let_def split: option.splits)

lemma fc_timeoutFired [simp]: "finishedCallbacks (timeoutFired s) = finishedCallbacks s"
proof -
  obtain st s1 where r: "sweepPending (pendingPlays s) [] (s\<lparr>timeouts := timeouts s - 1\<rparr>) = (st, s1)"
    by (cases "sweepPending (pendingPlays s) [] (s\<lparr>timeouts := timeouts s - 1\<rparr>)")
  have "finishedCallbacks (snd (st, s1)) = finishedCallbacks (s\<lparr>timeouts := timeouts s - 1\<rparr>)"
    unfolding r[symmetric] by (rule fc_sweep)
  then have "finishedCallbacks s1 = finishedCallbacks s" by simp
  then show ?thesis using r by (simp add: timeoutFired_def processPendingPlays_def Let_def)
qed

lemma fc_playAudio [simp]:
  "finishedCallbacks (snd (playAudio sh bh vol pan pit lp del spat px py mind maxd cb s)) = finishedCallbacks s"
  by (simp add: playAudio_def Let_def playAudioInternal_eq split: option.splits)

lemma fc_pauseAudio [simp]: "finishedCallbacks (pauseAudio h s) = finishedCallbacks s"
  by (simp add: pauseAudio_def host_defs split: option.splits)

lemma fc_resumeAudio [simp]: "finishedCallbacks (resumeAudio h s) = finishedCallbacks s"
proof (cases "\<exists>r src. map_of (instances s) h = Some r \<and> paused (objs s r) \<and> \<not> stopped (objs s r)
     \<and> sources s (sourceHandle (objs s r)) = Some src")
  case False
  then have "resumeAudio h s = s" by (auto simp: resumeAudio_def split: option.splits)
  then show ?thesis by simp
next
  case True
  then obtain r src where r: "map_of (instances s) h = Some r" "paused (objs s r)" "\<not> stopped (objs s r)"
    "sources s (sourceHandle (objs s r)) = Some src"
    by blast
  show ?thesis by (simp add: resumeAudio_eq[OF r])
qed

lemma fc_simple [simp]:
  "finishedCallbacks (snd (js_load_audio s)) = finishedCallbacks s"
  "finishedCallbacks (decodeResolved k b d s) = finishedCallbacks s"
  "finishedCallbacks (decodeRejected k s) = finishedCallbacks s"
  "finishedCallbacks (destroyAudio k s) = finishedCallbacks s"
  "finishedCallbacks (setAudioVolume h v s) = finishedCallbacks s"
  "finishedCallbacks (setAudioPan h v s) = finishedCallbacks s"
  "finishedCallbacks (setAudioPitch h v s) = finishedCallbacks s"
  "finishedCallbacks (setAudioLooping h l s) = finishedCallbacks s"
  "finishedCallbacks (setAudioPosition h x y s) = finishedCallbacks s"
  "finishedCallbacks (snd (createAudioBus s)) = finishedCallbacks s"
  "finishedCallbacks (destroyAudioBus k s) = finishedCallbacks s"
  "finishedCallbacks (setAudioBusVolume k v s) = finishedCallbacks s"
  "finishedCallbacks (setAudioBusMuted k m s) = finishedCallbacks s"
  "finishedCallbacks (setListenerPosition x y s) = finishedCallbacks s"
  "finishedCallbacks (clockAdvanced dt s) = finishedCallbacks s"
  by (simp_all add: js_load_audio_def decodeResolved_def decodeRejected_def destroyAudio_def
       setAudioVolume_def setAudioPan_def setAudioPitch_def setAudioLooping_def setAudioPosition_def
       createAudioBus_def destroyAudioBus_def setAudioBusVolume_def setAudioBusMuted_def
       setListenerPosition_def clockAdvanced_def host_defs Let_def split: option.splits)

lemma fc_poll: "finishedCallbacks (snd (pollFinishedCallback s)) = tl (finishedCallbacks s)"
  by (simp add: pollFinishedCallback_def split: list.splits)

lemma fc_step:
  "finishedCallbacks (step e s) = finishedCallbacks s
   \<or> (e = PollFinished \<and> finishedCallbacks (step e s) = tl (finishedCallbacks s))
   \<or> (\<exists>n r h. e = NodeEnded n \<and> canEnd s n \<and> n_onended (sourceNodes s n) = Some (r, h)
         \<and> \<not> stopped (objs s r) \<and> \<not> loop (objs s r) \<and> hasCallback (objs s r)
         \<and> finishedCallbacks (step e s) = finishedCallbacks s @ [h]
         \<and> map_of (instances (step e s)) h = None)"
proof (cases e)
  case PollFinished
  then show ?thesis by (simp add: fc_poll)
next
  case (NodeEnded n)
  show ?thesis
    unfolding NodeEnded step.simps nodeEnded_eq
    by (auto simp: delete_conv' split: option.splits)
qed simp_all

lemma resumeAudio_cases:
  "resumeAudio h s =
     (case map_of (instances s) h of
        None \<Rightarrow> s
      | Some r \<Rightarrow>
          (if \<not> paused (objs s r) \<or> stopped (objs s r) then s
           else (case sources s (sourceHandle (objs s r)) of
                   None \<Rightarrow> s
                 | Some src \<Rightarrow>
     s\<lparr>nextNode := Suc (nextNode s),
       nodeKind := (nodeKind s)(nextNode s \<mapsto> BufferSource),
       sourceNodes := (sourceNodes s)(nextNode s :=
           \<lparr>n_buffer = Some (buffer src), n_loop = loop (objs s r),
            n_playbackRate = pitch (objs s r), n_onended = Some (r, h),
            n_started = Some (0, pauseTime (objs s r)), n_stopCalled = False,
            n_ended = False\<rparr>),
       connections := connections s @ resumeChain (objs s r) (nextNode s),
       objs := (objs s)(r := (objs s r)\<lparr>sourceNode := nextNode s, paused := False,
                   startTime := currentTime s - pauseTime (objs s r)\<rparr>)\<rparr>)))"
proof (cases "map_of (instances s) h")
  case None
  then show ?thesis by (simp add: resumeAudio_def)
next
  case (Some r)
  show ?thesis
  proof (cases "\<not> paused (objs s r) \<or> stopped (objs s r)")
    case True
    then show ?thesis using Some by (auto simp: resumeAudio_def)
  next
    case False
    show ?thesis
    proof (cases "sources s (sourceHandle (objs s r))")
      case None
      then show ?thesis using Some False by (simp add: resumeAudio_absent)
    next
      case (Some src)
      from False have p: "paused (objs s r)" "\<not> stopped (objs s r)" by auto
      show ?thesis using resumeAudio_eq[OF \<open>map_of (instances s) h = Some r\<close> p Some] False Some
          \<open>map_of (instances s) h = Some r\<close> by simp
    qed
  qed
qed

lemma stopAudio_cases:
  "stopAudio h s =
     (case map_of (instances s) h of
        None \<Rightarrow> s
      | Some r \<Rightarrow>
     (if stopped (objs s r) then s\<lparr>instances := AList.delete h (instances s)\<rparr>
      else s\<lparr>objs := (objs s)(r := (objs s r)\<lparr>stopped := True\<rparr>),
       sourceNodes := (sourceNodes s)(sourceNode (objs s r) :=
          (sourceNodes s (sourceNode (objs s r)))\<lparr>n_stopCalled := True\<rparr>),
       connections := disconnectAll (objs s r) (connections s),
       instances := AList.delete h (instances s)\<rparr>))"
  by (cases "map_of (instances s) h") (simp_all add: stopAudio_eq, simp add: stopAudio_def)

lemma playAudio_cases:
  "snd (playAudio sh bh vol pan pit lp del spat px py mind maxd cb s) =
     (if \<not> initialized s then s
      else (case sources s sh of
              None \<Rightarrow>
                (if pendingPlays s = [] then
                  s\<lparr>nextInstanceHandle := Suc (nextInstanceHandle s),
                    pendingPlays := pendingPlays s @
                      [\<lparr>p_handle = nextInstanceHandle s, p_sourceHandle = sh, p_busHandle = bh,
                        p_volume = vol, p_pan = pan, p_pitch = pit, p_loop = lp, p_delay = del,
                        p_isSpatial = spat, p_posX = px, p_posY = py, p_minDistance = mind,
                        p_maxDistance = maxd, p_hasCallback = cb, p_retries = 0\<rparr>],
                    timeouts := Suc (timeouts s)\<rparr>
                 else
                  s\<lparr>nextInstanceHandle := Suc (nextInstanceHandle s),
                    pendingPlays := pendingPlays s @
                      [\<lparr>p_handle = nextInstanceHandle s, p_sourceHandle = sh, p_busHandle = bh,
                        p_volume = vol, p_pan = pan, p_pitch = pit, p_loop = lp, p_delay = del,
                        p_isSpatial = spat, p_posX = px, p_posY = py, p_minDistance = mind,
                        p_maxDistance = maxd, p_hasCallback = cb, p_retries = 0\<rparr>]\<rparr>)
            | Some src \<Rightarrow>
                playAudioInternal
                  \<lparr>p_handle = nextInstanceHandle s, p_sourceHandle = sh, p_busHandle = bh,
                        p_volume = vol, p_pan = pan, p_pitch = pit, p_loop = lp, p_delay = del,
                        p_isSpatial = spat, p_posX = px, p_posY = py, p_minDistance = mind,
                        p_maxDistance = maxd, p_hasCallback = cb, p_retries = 0\<rparr> src
                  (s\<lparr>nextInstanceHandle := Suc (nextInstanceHandle s)\<rparr>)))"
  by (simp add: playAudio_def Let_def split: option.splits)

lemmas core_defs = coreEq_def instCoreEq_def objCore_def nodeView_def canFire_def

lemma coreEq_simple:
  "coreEq s (setAudioVolume h v s)"
  "coreEq s (setAudioPan h v s)"
  "coreEq s (setAudioPitch h v s)"
  "coreEq s (setAudioLooping h l s)"
  "coreEq s (setAudioPosition h x y s)"
  "coreEq s (snd (createAudioBus s))"
  "coreEq s (destroyAudioBus k s)"
  "coreEq s (setAudioBusVolume k v s)"
  "coreEq s (setAudioBusMuted k m s)"
  "coreEq s (setListenerPosition x y s)"
  "coreEq s (snd (pollFinishedCallback s))"
  "coreEq s (clockAdvanced dt s)"
proof -
  show "coreEq s (setAudioVolume h v s)"
    by (simp add: core_defs setAudioVolume_def host_defs split: option.splits)
  show "coreEq s (setAudioPan h v s)"
    by (simp add: core_defs setAudioPan_def host_defs split: option.splits)
  show "coreEq s (setAudioPitch h v s)"
    by (simp add: core_defs setAudioPitch_def host_defs split: option.splits)
  show "coreEq s (setAudioLooping h l s)"
    by (simp add: core_defs setAudioLooping_def host_defs split: option.splits)
  show "coreEq s (setAudioPosition h x y s)"
    by (simp add: core_defs setAudioPosition_def host_defs split: option.splits)
  show "coreEq s (snd (createAudioBus s))"
    by (simp add: core_defs createAudioBus_def host_defs Let_def)
  show "coreEq s (destroyAudioBus k s)"
    by (simp add: core_defs destroyAudioBus_def host_defs Let_def split: option.splits)
  show "coreEq s (setAudioBusVolume k v s)"
    by (simp add: core_defs setAudioBusVolume_def host_defs Let_def split: option.splits)
  show "coreEq s (setAudioBusMuted k m s)"
    by (simp add: core_defs setAudioBusMuted_def host_defs split: option.splits)
  show "coreEq s (setListenerPosition x y s)"
    by (simp add: core_defs setListenerPosition_def)
  show "coreEq s (snd (pollFinishedCallback s))"
    by (simp add: core_defs pollFinishedCallback_def split: list.splits)
  show "coreEq s (clockAdvanced dt s)"
    by (simp add: core_defs clockAdvanced_def)
qed

lemma instCoreEq_sources:
  "instCoreEq s (snd (js_load_audio s))"
  "instCoreEq s (decodeResolved k b d s)"
  "instCoreEq s (decodeRejected k s)"
  "instCoreEq s (destroyAudio k s)"
  by (simp_all add: core_defs js_load_audio_def decodeResolved_def decodeRejected_def
        destroyAudio_def)

lemma coreEq_inst: "coreEq s s' \<Longrightarrow> instCoreEq s s'"
  by (simp add: coreEq_def)

lemma retired_frame: "instCoreEq s s' \<Longrightarrow> retired s h \<Longrightarrow> retired s' h"
  by (simp add: retired_def instCoreEq_def)

lemma retired_pauseAudio: "retired s h \<Longrightarrow> retired (pauseAudio k s) h"
  by (simp add: retired_def pauseAudio_def host_defs split: option.splits)

lemma retired_resumeAudio: "retired s h \<Longrightarrow> retired (resumeAudio k s) h"
  by (simp add: retired_def resumeAudio_cases split: option.splits)

lemma retired_playInternal:
  assumes "retired s h" "p_handle p \<noteq> h"
  shows "retired (playAudioInternal p src s) h"
  using assms by (simp add: retired_def playAudioInternal_eq update_conv')

lemma retired_pending:
  assumes "retired (s\<lparr>pendingPlays := xs\<rparr>) h" "p_handle ` set ys \<subseteq> p_handle ` set xs"
  shows "retired (s\<lparr>pendingPlays := ys\<rparr>) h"
  using assms by (auto simp: retired_def)

lemma retired_sweep:
  assumes "retired (s\<lparr>pendingPlays := st @ ps\<rparr>) h"
  shows "retired ((snd (sweepPending ps st s))\<lparr>pendingPlays := fst (sweepPending ps st s)\<rparr>) h"
  using assms
proof (induction ps arbitrary: st s)
  case Nil
  then show ?case by simp
next
  case (Cons p rest)
  show ?case
  proof (cases "sources s (p_sourceHandle p)")
    case (Some src)
    have ne: "p_handle p \<noteq> h" using Cons.prems by (auto simp: retired_def)
    have "retired (s\<lparr>pendingPlays := st @ rest\<rparr>) h"
      by (rule retired_pending[OF Cons.prems]) auto
    then have "retired (playAudioInternal p src (s\<lparr>pendingPlays := st @ rest\<rparr>)) h"
      using ne by (rule retired_playInternal)
    then have "retired ((playAudioInternal p src s)\<lparr>pendingPlays := st @ rest\<rparr>) h"
      by (simp add: playInternal_pending)
    from Cons.IH[OF this] show ?thesis using Some by simp
  next
    case None
    let ?p = "p\<lparr>p_retries := p_retries p + 1\<rparr>"
    show ?thesis
    proof (cases "p_retries ?p < 10")
      case True
      have "retired (s\<lparr>pendingPlays := (st @ [?p]) @ rest\<rparr>) h"
        by (rule retired_pending[OF Cons.prems]) auto
      from Cons.IH[OF this] show ?thesis using None True by (simp add: Let_def)
    next
      case False
      have "retired (s\<lparr>pendingPlays := st @ rest\<rparr>) h"
        by (rule retired_pending[OF Cons.prems]) auto
      from Cons.IH[OF this] show ?thesis using None False by (simp add: Let_def)
    qed
  qed
qed

lemma retired_timeoutFired: assumes "retired s h" shows "retired (timeoutFired s) h"
proof (cases "timeouts s = 0")
  case True
  then show ?thesis using assms by (simp add: timeoutFired_def)
next
  case False
  let ?s0 = "s\<lparr>timeouts := timeouts s - 1\<rparr>"
  obtain st s1 where r: "sweepPending (pendingPlays s) [] ?s0 = (st, s1)"
    by (cases "sweepPending (pendingPlays s) [] ?s0")
  have "retired (?s0\<lparr>pendingPlays := [] @ pendingPlays s\<rparr>) h" using assms by (simp add: retired_def)
  from retired_sweep[OF this] have a: "retired (s1\<lparr>pendingPlays := st\<rparr>) h" using r by simp
  have eq: "timeoutFired s = (if st \<noteq> [] then s1\<lparr>pendingPlays := st, timeouts := Suc (timeouts s1)\<rparr>
       else s1\<lparr>pendingPlays := st\<rparr>)"
    using False r by (simp add: timeoutFired_def processPendingPlays_def Let_def)
  show ?thesis unfolding eq using a by (simp add: retired_def)
qed

lemma retired_stopAudio: "retired s h \<Longrightarrow> retired (stopAudio k s) h"
  by (simp add: retired_def stopAudio_cases delete_conv' split: option.splits)

lemma retired_stopAllAudio: assumes "retired s h" shows "retired (stopAllAudio bh s) h"
proof -
  have "retired (fold (stopAllBody bh) es t) h" if "retired t h" for es t
    using that
  proof (induction es arbitrary: t)
    case Nil then show ?case by simp
  next
    case (Cons e es)
    obtain k r where e: "e = (k, r)" by (cases e)
    have "retired (stopAllBody bh e t) h"
      using Cons.prems
      by (cases "stopped (objs t r)")
         (simp_all add: stopAllBody_def e Let_def stopInstance_stopped stopInstance_eq retired_def
            delete_conv')
    from Cons.IH[OF this] show ?case by simp
  qed
  then show ?thesis using assms by (simp add: stopAllAudio_def)
qed

lemma retired_playAudio:
  assumes "retired s h"
  shows "retired (snd (playAudio sh bh vol pan pit lp del spat px py mind maxd cb s)) h"
  unfolding playAudio_cases
  using assms by (auto simp: retired_def playAudioInternal_eq update_conv' split: option.splits)

lemma retired_nodeEnded: assumes "retired s h" shows "retired (nodeEnded n s) h"
  unfolding nodeEnded_eq
  using assms by (auto simp: retired_def delete_conv' split: option.splits)

lemma retired_step: "retired s h \<Longrightarrow> retired (step e s) h"
  by (cases e)
     (simp_all add: retired_timeoutFired retired_stopAudio retired_stopAllAudio
        retired_playAudio retired_nodeEnded retired_pauseAudio retired_resumeAudio
        retired_frame[OF coreEq_inst[OF coreEq_simple(1)]]
        retired_frame[OF coreEq_inst[OF coreEq_simple(2)]]
        retired_frame[OF coreEq_inst[OF coreEq_simple(3)]]
        retired_frame[OF coreEq_inst[OF coreEq_simple(4)]]
        retired_frame[OF coreEq_inst[OF coreEq_simple(5)]]
        retired_frame[OF coreEq_inst[OF coreEq_simple(6)]]
        retired_frame[OF coreEq_inst[OF coreEq_simple(7)]]
        retired_frame[OF coreEq_inst[OF coreEq_simple(8)]]
        retired_frame[OF coreEq_inst[OF coreEq_simple(9)]]
        retired_frame[OF coreEq_inst[OF coreEq_simple(10)]]
        retired_frame[OF coreEq_inst[OF coreEq_simple(11)]]
        retired_frame[OF coreEq_inst[OF coreEq_simple(12)]]
        retired_frame[OF instCoreEq_sources(1)] retired_frame[OF instCoreEq_sources(2)]
        retired_frame[OF instCoreEq_sources(3)] retired_frame[OF instCoreEq_sources(4)])

lemma retired_run: "retired s h \<Longrightarrow> retired (run es s) h"
  unfolding run_def by (induction es arbitrary: s) (simp_all add: retired_step)

lemma no_push_step:
  assumes "wellFormed s" "map_of (instances s) h = None"
  shows "finishedCallbacks (step e s) \<noteq> finishedCallbacks s @ [h]"
proof -
  consider (same) "finishedCallbacks (step e s) = finishedCallbacks s"
    | (poll) "finishedCallbacks (step e s) = tl (finishedCallbacks s)"
    | (push) n r k where "canEnd s n" "n_onended (sourceNodes s n) = Some (r, k)"
        "finishedCallbacks (step e s) = finishedCallbacks s @ [k]"
    using fc_step[of e s] by blast
  then show ?thesis
  proof cases
    case same
    then show ?thesis by simp
  next
    case poll
    show ?thesis
    proof
      assume "finishedCallbacks (step e s) = finishedCallbacks s @ [h]"
      then have "length (tl (finishedCallbacks s)) = length (finishedCallbacks s @ [h])"
        using poll by simp
      then show False by simp
    qed
  next
    case (push n r k)
    from hooksD(1)[OF wfD(1)[OF assms(1)] canEnd_canFire[OF push(1)] push(2)] assms(2)
    have "k \<noteq> h" by auto
    then show ?thesis using push(3) by simp
  qed
qed

lemma retired_never_pushed:
  assumes "wellFormed s" "retired s h"
  shows "retired (run es s) h
    \<and> finishedCallbacks (step e (run es s)) \<noteq> finishedCallbacks (run es s) @ [h]"
proof -
  have r: "retired (run es s) h" by (rule retired_run[OF assms(2)])
  then have "map_of (instances (run es s)) h = None" by (simp add: retired_def)
  from no_push_step[OF wf_run[OF assms(1)] this] r show ?thesis by simp
qed

lemma table_handle_not_pending:
  assumes "wellFormed s" "map_of (instances s) h = Some r"
  shows "h < nextInstanceHandle s" "h \<notin> p_handle ` set (pendingPlays s)"
proof -
  note hd = handlesD[OF wfD(2)[OF assms(1)]]
  show "h < nextInstanceHandle s" using hd(3)[OF assms(2)] .
  show "h \<notin> p_handle ` set (pendingPlays s)"
  proof
    assume "h \<in> p_handle ` set (pendingPlays s)"
    then obtain p where "p \<in> set (pendingPlays s)" "h = p_handle p" by auto
    with hd(6)[of p] assms(2) show False by simp
  qed
qed

lemma retired_stop:
  assumes "wellFormed s" "map_of (instances s) h = Some r"
  shows "retired (stopAudio h s) h"
  using table_handle_not_pending[OF assms] assms(2)
  by (simp add: retired_def stopAudio_cases delete_conv')

lemma onended_guard: "loop (objs t r) \<or> stopped (objs t r) \<Longrightarrow> onended r h t = t"
  by (auto simp: onended_def)

lemma srcView_stopInstance [simp]: "srcView (stopInstance r s) = srcView s"
  by (cases "stopped (objs s r)") (simp_all add: stopInstance_stopped stopInstance_eq srcView_def)

lemma pending_stopInstance [simp]: "pendingPlays (stopInstance r s) = pendingPlays s"
  by (cases "stopped (objs s r)") (simp_all add: stopInstance_stopped stopInstance_eq)

lemma srcView_instances [simp]: "srcView (s\<lparr>instances := x\<rparr>) = srcView s"
  by (simp add: srcView_def)

lemma srcView_stopAllBody [simp]: "srcView (stopAllBody bh e t) = srcView t"
  by (cases e) (simp add: stopAllBody_def Let_def)

lemma pending_stopAllBody [simp]: "pendingPlays (stopAllBody bh e t) = pendingPlays t"
  by (cases e) (simp add: stopAllBody_def Let_def)

lemma srcView_stopAllAudio [simp]: "srcView (stopAllAudio bh s) = srcView s"
proof -
  have "srcView (fold (stopAllBody bh) es t) = srcView t" for es t
    by (induction es arbitrary: t) simp_all
  then show ?thesis by (simp add: stopAllAudio_def)
qed

lemma pending_stopAllAudio [simp]: "pendingPlays (stopAllAudio bh s) = pendingPlays s"
proof -
  have "pendingPlays (fold (stopAllBody bh) es t) = pendingPlays t" for es t
    by (induction es arbitrary: t) simp_all
  then show ?thesis by (simp add: stopAllAudio_def)
qed

lemma srcView_sweep [simp]: "srcView (snd (sweepPending ps st s)) = srcView s"
  by (induction ps arbitrary: st s)
     (auto simp: playAudioInternal_eq Let_def srcView_def split: option.splits)

lemma srcView_timeoutFired [simp]: "srcView (timeoutFired s) = srcView s"
proof -
  let ?s0 = "s\<lparr>timeouts := timeouts s - 1\<rparr>"
  obtain st s1 where r: "sweepPending (pendingPlays s) [] ?s0 = (st, s1)"
    by (cases "sweepPending (pendingPlays s) [] ?s0")
  have "srcView (snd (st, s1)) = srcView ?s0"
    unfolding r[symmetric] by (rule srcView_sweep)
  then have "srcView s1 = srcView s" by (simp add: srcView_def)
  then show ?thesis using r
    by (simp add: timeoutFired_def processPendingPlays_def Let_def srcView_def)
qed

lemma srcView_C [simp]:
  "srcView (pauseAudio h s) = srcView s"
  "srcView (resumeAudio h s) = srcView s"
  "srcView (stopAudio h s) = srcView s"
  "srcView (nodeEnded n s) = srcView s"
  "srcView (snd (playAudio sh bh vol pan pit lp del spat px py mind maxd cb s)) = srcView s"
proof -
  show "srcView (pauseAudio h s) = srcView s"
    by (simp add: srcView_def pauseAudio_def host_defs split: option.splits)
  show "srcView (resumeAudio h s) = srcView s"
    by (simp add: srcView_def resumeAudio_cases split: option.splits)
  show "srcView (stopAudio h s) = srcView s"
    by (simp add: srcView_def stopAudio_cases split: option.splits)
  show "srcView (nodeEnded n s) = srcView s"
    by (simp add: srcView_def nodeEnded_eq split: option.splits)
  show "srcView (snd (playAudio sh bh vol pan pit lp del spat px py mind maxd cb s)) = srcView s"
    by (simp add: srcView_def playAudio_cases playAudioInternal_eq split: option.splits)
qed

lemma pending_C [simp]:
  "pendingPlays (pauseAudio h s) = pendingPlays s"
  "pendingPlays (resumeAudio h s) = pendingPlays s"
  "pendingPlays (stopAudio h s) = pendingPlays s"
  "pendingPlays (nodeEnded n s) = pendingPlays s"
proof -
  show "pendingPlays (pauseAudio h s) = pendingPlays s"
    by (simp add: pauseAudio_def host_defs split: option.splits)
  show "pendingPlays (resumeAudio h s) = pendingPlays s"
    by (simp add: resumeAudio_cases split: option.splits)
  show "pendingPlays (stopAudio h s) = pendingPlays s"
    by (simp add: stopAudio_cases split: option.splits)
  show "pendingPlays (nodeEnded n s) = pendingPlays s"
    by (simp add: nodeEnded_eq split: option.splits)
qed

lemma coreEq_sources: "coreEq s s' \<Longrightarrow> sources s' = sources s"
  by (simp add: coreEq_def)

lemma initialized_simple [simp]:
  "initialized (setAudioVolume h v s) = initialized s"
  "initialized (setAudioPan h v s) = initialized s"
  "initialized (setAudioPitch h v s) = initialized s"
  "initialized (setAudioLooping h l s) = initialized s"
  "initialized (setAudioPosition h x y s) = initialized s"
  "initialized (snd (createAudioBus s)) = initialized s"
  "initialized (destroyAudioBus k s) = initialized s"
  "initialized (setAudioBusVolume k v s) = initialized s"
  "initialized (setAudioBusMuted k m s) = initialized s"
  "initialized (setListenerPosition x y s) = initialized s"
  "initialized (snd (pollFinishedCallback s)) = initialized s"
  "initialized (clockAdvanced dt s) = initialized s"
  "initialized (snd (js_load_audio s)) = initialized s"
  "initialized (decodeResolved k b d s) = initialized s"
  "initialized (decodeRejected k s) = initialized s"
  "initialized (destroyAudio k s) = initialized s"
proof -
  show "initialized (setAudioVolume h v s) = initialized s"
    by (simp add: setAudioVolume_def host_defs split: option.splits)
  show "initialized (setAudioPan h v s) = initialized s"
    by (simp add: setAudioPan_def host_defs split: option.splits)
  show "initialized (setAudioPitch h v s) = initialized s"
    by (simp add: setAudioPitch_def host_defs split: option.splits)
  show "initialized (setAudioLooping h l s) = initialized s"
    by (simp add: setAudioLooping_def host_defs split: option.splits)
  show "initialized (setAudioPosition h x y s) = initialized s"
    by (simp add: setAudioPosition_def host_defs split: option.splits)
  show "initialized (snd (createAudioBus s)) = initialized s"
    by (simp add: createAudioBus_def host_defs Let_def)
  show "initialized (destroyAudioBus k s) = initialized s"
    by (simp add: destroyAudioBus_def host_defs Let_def split: option.splits)
  show "initialized (setAudioBusVolume k v s) = initialized s"
    by (simp add: setAudioBusVolume_def host_defs Let_def split: option.splits)
  show "initialized (setAudioBusMuted k m s) = initialized s"
    by (simp add: setAudioBusMuted_def host_defs split: option.splits)
  show "initialized (setListenerPosition x y s) = initialized s"
    by (simp add: setListenerPosition_def)
  show "initialized (snd (pollFinishedCallback s)) = initialized s"
    by (simp add: pollFinishedCallback_def split: list.splits)
  show "initialized (clockAdvanced dt s) = initialized s"
    by (simp add: clockAdvanced_def)
  show "initialized (snd (js_load_audio s)) = initialized s"
    by (simp add: js_load_audio_def)
  show "initialized (decodeResolved k b d s) = initialized s"
    by (simp add: decodeResolved_def)
  show "initialized (decodeRejected k s) = initialized s"
    by (simp add: decodeRejected_def)
  show "initialized (destroyAudio k s) = initialized s"
    by (simp add: destroyAudio_def)
qed

lemma srcView_initialized: "srcView s' = srcView s \<Longrightarrow> initialized s' = initialized s"
  by (simp add: srcView_def)

lemma srcView_sources: "srcView s' = srcView s \<Longrightarrow> sources s' = sources s"
  by (simp add: srcView_def)

lemmas initialized_C = srcView_C[THEN srcView_initialized]
  srcView_stopAllAudio[THEN srcView_initialized] srcView_timeoutFired[THEN srcView_initialized]

lemmas sources_C = srcView_C[THEN srcView_sources]
  srcView_stopAllAudio[THEN srcView_sources] srcView_timeoutFired[THEN srcView_sources]

lemmas sources_A = coreEq_simple[THEN coreEq_sources]

lemma initialized_step [simp]: "initialized (step e s) = initialized s"
  by (cases e) (simp_all add: initialized_C)

lemma initialized_run [simp]: "initialized (run es s) = initialized s"
  unfolding run_def by (induction es arbitrary: s) simp_all

lemma initialized_reachable: "initialized (run es init_engine)"
  by (simp add: init_engine_def)

lemma sources_step:
  assumes "sources s sh = None" "\<And>b d. e \<noteq> DecodeResolved sh b d"
  shows "sources (step e s) sh = None"
proof (cases e)
  case (DecodeResolved k b d)
  then have "k \<noteq> sh" using assms(2) by auto
  then show ?thesis using assms(1) DecodeResolved by (simp add: decodeResolved_def)
next
  case (DestroyAudio k)
  then show ?thesis using assms(1) by (simp add: destroyAudio_def)
next
  case Load then show ?thesis using assms(1) by (simp add: js_load_audio_def)
next
  case (DecodeRejected k) then show ?thesis using assms(1) by (simp add: decodeRejected_def)
qed (simp_all add: assms(1) sources_C sources_A)

lemma sources_sweep [simp]: "sources (snd (sweepPending ps st s)) = sources s"
  by (rule srcView_sources) simp

lemma sources_playInternal [simp]: "sources (playAudioInternal p src s) = sources s"
  by (simp add: playAudioInternal_eq)

lemma sweep_members:
  "x \<in> set (fst (sweepPending ps st s)) \<longleftrightarrow>
     x \<in> set st \<or> (\<exists>q \<in> set ps. sources s (p_sourceHandle q) = None \<and> p_retries q + 1 < 10
                       \<and> x = q\<lparr>p_retries := p_retries q + 1\<rparr>)"
proof (induction ps arbitrary: st s)
  case Nil
  then show ?case by simp
next
  case (Cons p rest)
  show ?case
  proof (cases "sources s (p_sourceHandle p)")
    case (Some src)
    then show ?thesis using Cons.IH[of st "playAudioInternal p src s"] by auto
  next
    case None
    show ?thesis
    proof (cases "p_retries p + 1 < 10")
      case True
      then show ?thesis using None Cons.IH[of "st @ [p\<lparr>p_retries := p_retries p + 1\<rparr>]" s]
        by (auto simp: Let_def)
    next
      case False
      then show ?thesis using None Cons.IH[of st s] by (auto simp: Let_def)
    qed
  qed
qed

lemma sweep_table_untouched:
  assumes "\<And>q. q \<in> set ps \<Longrightarrow> p_handle q = h \<Longrightarrow> sources s (p_sourceHandle q) = None"
  shows "map_of (instances (snd (sweepPending ps st s))) h = map_of (instances s) h"
  using assms
proof (induction ps arbitrary: st s)
  case Nil
  then show ?case by simp
next
  case (Cons p rest)
  show ?case
  proof (cases "sources s (p_sourceHandle p)")
    case (Some src)
    then have ne: "p_handle p \<noteq> h" using Cons.prems[of p] by auto
    have "map_of (instances (snd (sweepPending rest st (playAudioInternal p src s)))) h
        = map_of (instances (playAudioInternal p src s)) h"
      by (rule Cons.IH) (use Cons.prems in auto)
    then show ?thesis using Some ne by (simp add: playAudioInternal_eq update_conv')
  next
    case None
    have a: "map_of (instances (snd (sweepPending rest st' s))) h = map_of (instances s) h" for st'
      by (rule Cons.IH) (use Cons.prems in auto)
    show ?thesis using None a by (simp add: Let_def)
  qed
qed

lemma nih_sweep [simp]:
  "nextInstanceHandle (snd (sweepPending ps st s)) = nextInstanceHandle s"
  by (induction ps arbitrary: st s)
     (auto simp: playAudioInternal_eq Let_def split: option.splits)

lemma timeoutFired_eq:
  assumes "timeouts s \<noteq> 0"
  shows "timeoutFired s =
    (let r = sweepPending (pendingPlays s) [] (s\<lparr>timeouts := timeouts s - 1\<rparr>)
     in if fst r \<noteq> [] then (snd r)\<lparr>pendingPlays := fst r, timeouts := Suc (timeouts (snd r))\<rparr>
        else (snd r)\<lparr>pendingPlays := fst r\<rparr>)"
  using assms
  by (simp add: timeoutFired_def processPendingPlays_def Let_def split: prod.splits)

lemma parked_timeout:
  assumes wf: "wellFormed s" and pk: "parked s p k"
    and src: "sources s (p_sourceHandle p) = None"
  shows "(k + 1 < 10 \<longrightarrow> parked (timeoutFired s) p (k + 1))
       \<and> (10 \<le> k + 1 \<longrightarrow> retired (timeoutFired s) (p_handle p))
       \<and> map_of (instances (timeoutFired s)) (p_handle p) = None"
proof -
  let ?q = "p\<lparr>p_retries := k\<rparr>"
  let ?h = "p_handle p"
  note hd = handlesD[OF wfD(2)[OF wf]]
  have qin: "?q \<in> set (pendingPlays s)" using pk by (simp add: parked_def)
  then have ne: "pendingPlays s \<noteq> []" by auto
  then have t: "timeouts s \<noteq> 0" using wfD(3)[OF wf] by (simp add: timerInv_def)
  let ?s0 = "s\<lparr>timeouts := timeouts s - 1\<rparr>"
  let ?r = "sweepPending (pendingPlays s) [] ?s0"
  note eq = timeoutFired_eq[OF t]
  have pend: "pendingPlays (timeoutFired s) = fst ?r" by (simp add: eq Let_def)
  have tab: "map_of (instances (timeoutFired s)) = map_of (instances (snd ?r))"
    by (simp add: eq Let_def)
  have nih: "nextInstanceHandle (timeoutFired s) = nextInstanceHandle s"
    by (simp add: eq Let_def)
  have uniq: "q = ?q" if "q \<in> set (pendingPlays s)" "p_handle q = ?h" for q
  proof -
    have inj: "inj_on p_handle (set (pendingPlays s))" using hd(7) by (simp add: distinct_map)
    have "p_handle q = p_handle ?q" using that(2) by simp
    from inj_onD[OF inj this that(1) qin] show ?thesis .
  qed
  have absent: "sources ?s0 (p_sourceHandle q) = None"
    if "q \<in> set (pendingPlays s)" "p_handle q = ?h" for q
    using uniq[OF that] src by simp
  have 3: "map_of (instances (timeoutFired s)) ?h = None"
    using sweep_table_untouched[of "pendingPlays s" ?h ?s0 "[]", OF absent] hd(6)[OF qin]
    by (simp add: tab)
  have 1: "parked (timeoutFired s) p (k + 1)" if "k + 1 < 10"
  proof -
    have "\<exists>q\<in>set (pendingPlays s). sources ?s0 (p_sourceHandle q) = None \<and> p_retries q + 1 < 10
           \<and> ?q\<lparr>p_retries := p_retries ?q + 1\<rparr> = q\<lparr>p_retries := p_retries q + 1\<rparr>"
      by (rule bexI[of _ ?q]) (use qin src that in simp_all)
    then have "?q\<lparr>p_retries := p_retries ?q + 1\<rparr> \<in> set (fst ?r)"
      unfolding sweep_members by blast
    then show ?thesis by (simp add: parked_def pend)
  qed
  have 2: "retired (timeoutFired s) ?h" if "10 \<le> k + 1"
  proof -
    have "?h \<notin> p_handle ` set (fst ?r)"
    proof
      assume "?h \<in> p_handle ` set (fst ?r)"
      then obtain x where x: "x \<in> set (fst ?r)" "p_handle x = ?h" by auto
      then obtain q where q: "q \<in> set (pendingPlays s)" "p_retries q + 1 < 10"
          "x = q\<lparr>p_retries := p_retries q + 1\<rparr>"
        unfolding sweep_members by auto
      then have "p_handle q = ?h" using x(2) by simp
      from uniq[OF q(1) this] q(2) that show False by simp
    qed
    then show ?thesis using 3 hd(5)[OF qin] by (simp add: retired_def pend nih)
  qed
  show ?thesis using 1 2 3 by blast
qed

lemma pending_step:
  assumes "e \<noteq> TimeoutFired" "x \<in> set (pendingPlays s)"
  shows "x \<in> set (pendingPlays (step e s))"
proof (cases e)
  case (Play sh bh vol pan pit lp del spat px py mind maxd cb)
  show ?thesis unfolding Play step.simps playAudio_cases using assms(2)
    by (auto simp: playAudioInternal_eq split: option.splits)
next
  case TimeoutFired
  then show ?thesis using assms(1) by simp
qed (simp_all add: assms(2) js_load_audio_def decodeResolved_def decodeRejected_def destroyAudio_def
       coreEq_simple[THEN coreEq_inst, unfolded instCoreEq_def, THEN conjunct2, THEN conjunct1])

lemma parked_run:
  assumes "wellFormed s" "parked s p k" "k < 10" "sources s (p_sourceHandle p) = None"
    and "\<And>e b d. e \<in> set es \<Longrightarrow> e \<noteq> DecodeResolved (p_sourceHandle p) b d"
  shows "(k + count_list es TimeoutFired < 10 \<longrightarrow>
            parked (run es s) p (k + count_list es TimeoutFired)
          \<and> map_of (instances (run es s)) (p_handle p) = None
          \<and> sources (run es s) (p_sourceHandle p) = None)
       \<and> (10 \<le> k + count_list es TimeoutFired \<longrightarrow> retired (run es s) (p_handle p))"
  using assms
proof (induction es arbitrary: s k)
  case Nil
  have "p\<lparr>p_retries := k\<rparr> \<in> set (pendingPlays s)" using Nil.prems(2) by (simp add: parked_def)
  from handlesD(6)[OF wfD(2)[OF Nil.prems(1)] this]
  show ?case using Nil.prems by (simp add: run_def)
next
  case (Cons e es)
  let ?s = "step e s"
  have wf': "wellFormed ?s" by (rule wf_step[OF Cons.prems(1)])
  have src': "sources ?s (p_sourceHandle p) = None"
    by (rule sources_step[OF Cons.prems(4)]) (use Cons.prems(5)[of e] in auto)
  have nd: "e' \<noteq> DecodeResolved (p_sourceHandle p) b d" if "e' \<in> set es" for e' b d
    using Cons.prems(5)[of e' b d] that by simp
  have run: "run (e # es) s = run es ?s" by (simp add: run_def)
  show ?case
  proof (cases "e = TimeoutFired")
    case True
    note pt = parked_timeout[OF Cons.prems(1,2,4)]
    have cnt: "k + count_list (e # es) TimeoutFired = (k + 1) + count_list es TimeoutFired"
      using True by simp
    show ?thesis
    proof (cases "k + 1 < 10")
      case True
      then have pk': "parked ?s p (k + 1)" using pt \<open>e = TimeoutFired\<close> by simp
      show ?thesis unfolding run cnt by (rule Cons.IH[OF wf' pk' True src' nd])
    next
      case False
      then have "retired ?s (p_handle p)" using pt \<open>e = TimeoutFired\<close> by simp
      then have "retired (run es ?s) (p_handle p)" by (rule retired_run)
      then show ?thesis unfolding run cnt using False by simp
    qed
  next
    case False
    have "p\<lparr>p_retries := k\<rparr> \<in> set (pendingPlays ?s)"
      by (rule pending_step[OF False]) (use Cons.prems(2) in \<open>simp add: parked_def\<close>)
    then have pk': "parked ?s p k" by (simp add: parked_def)
    have cnt: "count_list (e # es) TimeoutFired = count_list es TimeoutFired"
      using False by simp
    show ?thesis unfolding run cnt by (rule Cons.IH[OF wf' pk' Cons.prems(3) src' nd])
  qed
qed

lemma promoted_playInternal_self: "promoted (playAudioInternal p src s) p"
  unfolding promoted_def
  by (rule exI[of _ "nextObj s"]) (simp add: playAudioInternal_eq update_conv' newInstance_def)

lemma promoted_playInternal_other:
  assumes "promoted s p" "p_handle q \<noteq> p_handle p"
  shows "promoted (playAudioInternal q src s) p"
proof -
  from assms(1) obtain r where r: "map_of (instances s) (p_handle p) = Some r" "r < nextObj s"
      "sourceHandle (objs s r) = p_sourceHandle p \<and> busHandle (objs s r) = p_busHandle p
      \<and> startTime (objs s r) = currentTime s + p_delay p \<and> pauseTime (objs s r) = 0
      \<and> \<not> paused (objs s r) \<and> \<not> stopped (objs s r)
      \<and> loop (objs s r) = p_loop p \<and> volume (objs s r) = p_volume p
      \<and> pitch (objs s r) = p_pitch p \<and> hasCallback (objs s r) = p_hasCallback p
      \<and> (pannerNode (objs s r) \<noteq> None \<longleftrightarrow> \<not> p_isSpatial p \<and> p_pan p \<noteq> 0)
      \<and> (spatialPanner (objs s r) \<noteq> None \<longleftrightarrow> p_isSpatial p)"
    unfolding promoted_def by blast
  show ?thesis unfolding promoted_def
    by (rule exI[of _ r]) (use r assms(2) in \<open>simp add: playAudioInternal_eq update_conv'\<close>)
qed

lemma promoted_sweep_keep:
  assumes "promoted s p" "\<And>q. q \<in> set ps \<Longrightarrow> p_handle q \<noteq> p_handle p"
  shows "promoted (snd (sweepPending ps st s)) p"
  using assms
proof (induction ps arbitrary: st s)
  case Nil
  then show ?case by simp
next
  case (Cons q rest)
  have ne: "p_handle q \<noteq> p_handle p" using Cons.prems(2)[of q] by simp
  have rest: "p_handle q' \<noteq> p_handle p" if "q' \<in> set rest" for q'
    using Cons.prems(2)[of q'] that by simp
  show ?case
  proof (cases "sources s (p_sourceHandle q)")
    case (Some src)
    have "promoted (playAudioInternal q src s) p"
      by (rule promoted_playInternal_other[OF Cons.prems(1) ne])
    from Cons.IH[OF this rest] show ?thesis using Some by simp
  next
    case None
    from Cons.IH[OF Cons.prems(1) rest] show ?thesis using None by (simp add: Let_def)
  qed
qed

lemma promoted_sweep:
  assumes "p \<in> set ps" "distinct (map p_handle ps)" "sources s (p_sourceHandle p) = Some src"
  shows "promoted (snd (sweepPending ps st s)) p"
  using assms
proof (induction ps arbitrary: st s)
  case Nil
  then show ?case by simp
next
  case (Cons q rest)
  show ?case
  proof (cases "q = p")
    case True
    have notin: "p_handle p \<notin> p_handle ` set rest" using Cons.prems(2) True by simp
    have rest: "p_handle q' \<noteq> p_handle p" if "q' \<in> set rest" for q'
    proof
      assume e: "p_handle q' = p_handle p"
      have "p_handle p \<in> p_handle ` set rest"
        by (rule image_eqI[of _ _ q']) (use that e in simp_all)
      then show False using notin by simp
    qed
    have "promoted (playAudioInternal p src s) p" by (rule promoted_playInternal_self)
    from promoted_sweep_keep[OF this rest] show ?thesis using True Cons.prems(3) by simp
  next
    case False
    then have pin: "p \<in> set rest" using Cons.prems(1) by simp
    have d: "distinct (map p_handle rest)" using Cons.prems(2) by simp
    show ?thesis
    proof (cases "sources s (p_sourceHandle q)")
      case (Some src')
      have "sources (playAudioInternal q src' s) (p_sourceHandle p) = Some src"
        using Cons.prems(3) by simp
      from Cons.IH[OF pin d this] show ?thesis using Some by simp
    next
      case None
      from Cons.IH[OF pin d Cons.prems(3)] show ?thesis using None by (simp add: Let_def)
    qed
  qed
qed

lemma promoted_cong:
  assumes "promoted s p" "instances s' = instances s" "objs s' = objs s" "nextObj s' = nextObj s"
    "currentTime s' = currentTime s"
  shows "promoted s' p"
  using assms by (simp add: promoted_def)

lemma currentTime_sweep [simp]: "currentTime (snd (sweepPending ps st s)) = currentTime s"
  by (induction ps arbitrary: st s)
     (auto simp: playAudioInternal_eq Let_def split: option.splits)

lemma promotion:
  assumes wf: "wellFormed s" and pk: "parked s p k"
    and src: "sources s (p_sourceHandle p) = Some src"
  shows "promoted (timeoutFired s) (p\<lparr>p_retries := k\<rparr>)
       \<and> isAudioPlaying (timeoutFired s) (p_handle p)
       \<and> p_handle p \<notin> p_handle ` set (pendingPlays (timeoutFired s))"
proof -
  let ?q = "p\<lparr>p_retries := k\<rparr>"
  let ?h = "p_handle p"
  note hd = handlesD[OF wfD(2)[OF wf]]
  have qin: "?q \<in> set (pendingPlays s)" using pk by (simp add: parked_def)
  then have ne: "pendingPlays s \<noteq> []" by auto
  then have t: "timeouts s \<noteq> 0" using wfD(3)[OF wf] by (simp add: timerInv_def)
  let ?s0 = "s\<lparr>timeouts := timeouts s - 1\<rparr>"
  let ?r = "sweepPending (pendingPlays s) [] ?s0"
  note eq = timeoutFired_eq[OF t]
  have pend: "pendingPlays (timeoutFired s) = fst ?r" by (simp add: eq Let_def)
  have uniq: "q = ?q" if "q \<in> set (pendingPlays s)" "p_handle q = ?h" for q
  proof -
    have inj: "inj_on p_handle (set (pendingPlays s))" using hd(7) by (simp add: distinct_map)
    have "p_handle q = p_handle ?q" using that(2) by simp
    from inj_onD[OF inj this that(1) qin] show ?thesis .
  qed
  have "promoted (snd ?r) ?q"
    by (rule promoted_sweep[OF qin hd(7)]) (simp add: src)
  then have "promoted (snd ?r) ?q \<and> currentTime (snd ?r) = currentTime s" by simp
  then have 1: "promoted (timeoutFired s) ?q"
    by (auto simp: eq Let_def promoted_def)
  then have 2: "isAudioPlaying (timeoutFired s) ?h"
    by (auto simp: promoted_def isAudioPlaying_def)
  have 3: "?h \<notin> p_handle ` set (fst ?r)"
  proof
    assume "?h \<in> p_handle ` set (fst ?r)"
    then obtain x where x: "x \<in> set (fst ?r)" "p_handle x = ?h" by auto
    then obtain q where q: "q \<in> set (pendingPlays s)" "sources ?s0 (p_sourceHandle q) = None"
          "x = q\<lparr>p_retries := p_retries q + 1\<rparr>"
      unfolding sweep_members by auto
    then have "p_handle q = ?h" using x(2) by simp
    from uniq[OF q(1) this] q(2) src show False by simp
  qed
  show ?thesis using 1 2 3 by (simp add: pend)
qed

lemma stranded_coreEq:
  assumes "coreEq s s'" "stranded s h r c sh b"
  shows "stranded s' h r c sh b"
proof -
  have o: "objCore (objs s' r) = objCore (objs s r)" using assms(1) by (simp add: coreEq_def instCoreEq_def)
  show ?thesis using assms o by (simp add: stranded_def coreEq_def instCoreEq_def objCore_def)
qed

lemma stranded_pause: "stranded s h r c sh b \<Longrightarrow> stranded (pauseAudio k s) h r c sh b"
  by (auto simp: stranded_def pauseAudio_def host_defs split: option.splits)

lemma stranded_resume: "stranded s h r c sh b \<Longrightarrow> stranded (resumeAudio k s) h r c sh b"
  by (auto simp: stranded_def resumeAudio_cases split: option.splits)

lemma stranded_stop: "stranded s h r c sh b \<Longrightarrow> k \<noteq> h \<Longrightarrow> stranded (stopAudio k s) h r c sh b"
  by (auto simp: stranded_def stopAudio_cases delete_conv' split: option.splits)

lemma stranded_stopAll:
  assumes "wellFormed s" "stranded s h r c sh b" "bh \<noteq> 0" "bh \<noteq> b"
  shows "stranded (stopAllAudio bh s) h r c sh b"
proof (rule stopAllAudio_induct[where P = "\<lambda>u. stranded u h r c sh b"])
  show "distinct (map fst (instances s))" by (rule handlesD(2)[OF wfD(2)[OF assms(1)]])
  show "stranded s h r c sh b" by (rule assms(2))
  show "stranded (stopAudio k u) h r c sh b"
    if "stranded u h r c sh b" "map_of (instances u) k = Some r'"
       "bh = 0 \<or> busHandle (objs u r') = bh" for u k r'
  proof -
    have "k \<noteq> h" using that assms(3,4) by (auto simp: stranded_def)
    then show ?thesis using that(1) by (rule stranded_stop[rotated])
  qed
qed

lemma stranded_nodeEnded:
  assumes "wellFormed s" "stranded s h r c sh b"
  shows "stranded (nodeEnded n s) h r c sh b"
proof (cases "canEnd s n")
  case False
  then show ?thesis using assms(2) by (simp add: nodeEnded_def)
next
  case True
  have ne: "k \<noteq> h" if "n_onended (sourceNodes s n) = Some (r', k)" for r' k
  proof
    assume "k = h"
    with hooksD(1,2)[OF wfD(1)[OF assms(1)] canEnd_canFire[OF True] that] assms(2)
    show False by (auto simp: stranded_def)
  qed
  show ?thesis unfolding nodeEnded_eq using assms(2) ne True
    by (auto simp: stranded_def delete_conv' split: option.splits)
qed

lemma stranded_playInternal:
  assumes "stranded s h r c sh b" "p_handle p \<noteq> h" "r < nextObj s"
  shows "stranded (playAudioInternal p src s) h r c sh b"
  using assms by (simp add: stranded_def playAudioInternal_eq update_conv')

lemma stranded_play:
  assumes "wellFormed s" "stranded s h r c sh b"
  shows "stranded (snd (playAudio sh' bh vol pan pit lp del spat px py mind maxd cb s)) h r c sh b"
proof -
  have t: "map_of (instances s) h = Some r" using assms(2) by (simp add: stranded_def)
  note hd = handlesD(3,4)[OF wfD(2)[OF assms(1)] t]
  have "stranded (s\<lparr>nextInstanceHandle := Suc (nextInstanceHandle s)\<rparr>) h r c sh b"
    using assms(2) by (simp add: stranded_def)
  from stranded_playInternal[OF this] hd
  show ?thesis unfolding playAudio_cases using assms(2)
    by (auto simp: stranded_def split: option.splits)
qed

lemma objs_sweep:
  assumes "r < nextObj s"
  shows "objs (snd (sweepPending ps st s)) r = objs s r"
  using assms
proof (induction ps arbitrary: st s)
  case Nil then show ?case by simp
next
  case (Cons p rest)
  show ?case
  proof (cases "sources s (p_sourceHandle p)")
    case (Some src)
    have "r < nextObj (playAudioInternal p src s)" using Cons.prems by (simp add: playAudioInternal_eq)
    from Cons.IH[OF this] show ?thesis using Some Cons.prems by (simp add: playAudioInternal_eq)
  next
    case None
    then show ?thesis using Cons.IH[OF Cons.prems] by (simp add: Let_def)
  qed
qed

lemma stranded_timeout:
  assumes wf: "wellFormed s" and st: "stranded s h r c sh b"
  shows "stranded (timeoutFired s) h r c sh b"
proof (cases "timeouts s = 0")
  case True
  then show ?thesis using st by (simp add: timeoutFired_def)
next
  case False
  have t: "map_of (instances s) h = Some r" using st by (simp add: stranded_def)
  note hd = handlesD[OF wfD(2)[OF wf]]
  let ?s0 = "s\<lparr>timeouts := timeouts s - 1\<rparr>"
  let ?r = "sweepPending (pendingPlays s) [] ?s0"
  note eq = timeoutFired_eq[OF False]
  have nop: "sources ?s0 (p_sourceHandle q) = None" if "q \<in> set (pendingPlays s)" "p_handle q = h" for q
    using hd(6)[OF that(1)] that(2) t by simp
  have 1: "map_of (instances (snd ?r)) h = Some r"
    using sweep_table_untouched[of "pendingPlays s" h ?s0 "[]", OF nop] t by simp
  have 2: "objs (snd ?r) r = objs s r"
    using objs_sweep[of r ?s0 "pendingPlays s" "[]"] hd(4)[OF t] by simp
  have 3: "srcView (snd ?r) = srcView s"
    using srcView_sweep[of "pendingPlays s" "[]" ?s0] by (simp add: srcView_def)
  show ?thesis using st 1 2 3 by (auto simp: eq Let_def stranded_def srcView_def)
qed

lemma stranded_sources:
  assumes "stranded s h r c sh b"
  shows "stranded (snd (js_load_audio s)) h r c sh b"
    "stranded (decodeResolved k bf d s) h r c sh b"
    "stranded (decodeRejected k s) h r c sh b"
    "stranded (destroyAudio k s) h r c sh b"
  using assms
  by (auto simp: stranded_def js_load_audio_def decodeResolved_def decodeRejected_def destroyAudio_def)

lemma stranded_step:
  assumes "wellFormed s" "stranded s h r c sh b" "e \<noteq> Stop h" "e \<noteq> StopAll 0" "e \<noteq> StopAll b"
  shows "stranded (step e s) h r c sh b"
proof (cases e)
  case (Stop k)
  then show ?thesis using assms by (simp add: stranded_stop)
next
  case (StopAll bh)
  then show ?thesis using assms by (simp add: stranded_stopAll)
qed (simp_all add: assms(1,2) stranded_sources stranded_play stranded_pause stranded_resume
       stranded_timeout stranded_nodeEnded
       stranded_coreEq[OF coreEq_simple(1)] stranded_coreEq[OF coreEq_simple(2)]
       stranded_coreEq[OF coreEq_simple(3)] stranded_coreEq[OF coreEq_simple(4)]
       stranded_coreEq[OF coreEq_simple(5)] stranded_coreEq[OF coreEq_simple(6)]
       stranded_coreEq[OF coreEq_simple(7)] stranded_coreEq[OF coreEq_simple(8)]
       stranded_coreEq[OF coreEq_simple(9)] stranded_coreEq[OF coreEq_simple(10)]
       stranded_coreEq[OF coreEq_simple(11)] stranded_coreEq[OF coreEq_simple(12)])

lemma stranded_run:
  assumes "wellFormed s" "stranded s h r c sh b"
    "\<And>e. e \<in> set es \<Longrightarrow> e \<noteq> Stop h \<and> e \<noteq> StopAll 0 \<and> e \<noteq> StopAll b"
  shows "stranded (run es s) h r c sh b"
  using assms
proof (induction es arbitrary: s)
  case Nil
  then show ?case by (simp add: run_def)
next
  case (Cons e es)
  have 1: "stranded (step e s) h r c sh b"
    by (rule stranded_step[OF Cons.prems(1,2)]) (use Cons.prems(3)[of e] in simp_all)
  have 2: "wellFormed (step e s)" by (rule wf_step[OF Cons.prems(1)])
  have "stranded (run es (step e s)) h r c sh b"
    by (rule Cons.IH[OF 2 1]) (use Cons.prems(3) in simp)
  then show ?case by (simp add: run_def)
qed

lemma stopAll_removes:
  assumes "(h, r) \<in> set es" "bh = 0 \<or> busHandle (objs t r) = bh"
  shows "map_of (instances (fold (stopAllBody bh) es t)) h = None"
proof -
  have keep: "map_of (instances (fold (stopAllBody bh) es t)) h = None"
    if "map_of (instances t) h = None" for es t
    using that
  proof (induction es arbitrary: t)
    case Nil then show ?case by simp
  next
    case (Cons e es)
    obtain k r' where e: "e = (k, r')" by (cases e)
    have "map_of (instances (stopAllBody bh e t)) h = None"
      using Cons.prems by (simp add: stopAllBody_def e Let_def delete_conv')
    from Cons.IH[OF this] show ?case by simp
  qed
  have bus: "busHandle (objs (stopAllBody bh e t) r) = busHandle (objs t r)" for e t
  proof -
    obtain k r' where e: "e = (k, r')" by (cases e)
    show ?thesis
      by (cases "stopped (objs t r')")
         (simp_all add: stopAllBody_def e Let_def stopInstance_stopped stopInstance_eq)
  qed
  show ?thesis using assms
  proof (induction es arbitrary: t)
    case Nil then show ?case by simp
  next
    case (Cons e es)
    show ?case
    proof (cases "e = (h, r)")
      case True
      have "map_of (instances (stopAllBody bh e t)) h = None"
        using Cons.prems(2) by (auto simp: stopAllBody_def True Let_def delete_conv')
      from keep[OF this] show ?thesis by simp
    next
      case False
      then have "(h, r) \<in> set es" using Cons.prems(1) by simp
      moreover have "bh = 0 \<or> busHandle (objs (stopAllBody bh e t) r) = bh"
        using Cons.prems(2) by (simp add: bus)
      ultimately show ?thesis using Cons.IH by simp
    qed
  qed
qed

lemma stopAllAudio_removes:
  assumes "map_of (instances s) h = Some r" "bh = 0 \<or> busHandle (objs s r) = bh"
  shows "map_of (instances (stopAllAudio bh s)) h = None"
  unfolding stopAllAudio_def
  by (rule stopAll_removes[OF map_of_SomeD[OF assms(1)] assms(2)])

lemma hasCallback_stopAll:
  "hasCallback (objs (fold (stopAllBody bh) es t) r) = hasCallback (objs t r)"
proof (induction es arbitrary: t)
  case Nil then show ?case by simp
next
  case (Cons e es)
  obtain k r' where e: "e = (k, r')" by (cases e)
  have "hasCallback (objs (stopAllBody bh e t) r) = hasCallback (objs t r)"
    by (cases "stopped (objs t r')")
       (simp_all add: stopAllBody_def e Let_def stopInstance_stopped stopInstance_eq)
  then show ?case using Cons.IH by simp
qed

lemma hasCallback_coreEq: "coreEq s s' \<Longrightarrow> hasCallback (objs s' r) = hasCallback (objs s r)"
proof -
  assume "coreEq s s'"
  then have "objCore (objs s' r) = objCore (objs s r)" by (simp add: coreEq_def instCoreEq_def)
  then show ?thesis by (simp add: objCore_def)
qed

lemma hasCallback_timeout:
  assumes "r < nextObj s"
  shows "hasCallback (objs (timeoutFired s) r) = hasCallback (objs s r)"
proof (cases "timeouts s = 0")
  case True then show ?thesis by (simp add: timeoutFired_def)
next
  case False
  have "objs (snd (sweepPending (pendingPlays s) [] (s\<lparr>timeouts := timeouts s - 1\<rparr>))) r = objs s r"
    using objs_sweep[of r "s\<lparr>timeouts := timeouts s - 1\<rparr>" "pendingPlays s" "[]"] assms by simp
  then show ?thesis by (simp add: timeoutFired_eq[OF False] Let_def)
qed

lemma hasCallback_step:
  assumes "r < nextObj s"
  shows "hasCallback (objs (step e s) r) = hasCallback (objs s r)"
proof (cases e)
  case (Play sh bh vol pan pit lp del spat px py mind maxd cb)
  show ?thesis unfolding Play step.simps playAudio_cases using assms
    by (simp add: playAudioInternal_eq split: option.splits)
next
  case (Stop h)
  show ?thesis unfolding Stop step.simps stopAudio_cases by (simp split: option.splits)
next
  case (Pause h)
  show ?thesis unfolding Pause step.simps by (simp add: pauseAudio_def host_defs split: option.splits)
next
  case (Resume h)
  show ?thesis unfolding Resume step.simps resumeAudio_cases by (simp split: option.splits)
next
  case (StopAll bh)
  show ?thesis unfolding StopAll step.simps stopAllAudio_def by (rule hasCallback_stopAll)
next
  case TimeoutFired
  show ?thesis unfolding TimeoutFired step.simps by (rule hasCallback_timeout[OF assms])
next
  case (NodeEnded n)
  show ?thesis unfolding NodeEnded step.simps nodeEnded_eq by (simp split: option.splits)
qed (simp_all add: js_load_audio_def decodeResolved_def decodeRejected_def destroyAudio_def
       hasCallback_coreEq[OF coreEq_simple(1)] hasCallback_coreEq[OF coreEq_simple(2)]
       hasCallback_coreEq[OF coreEq_simple(3)] hasCallback_coreEq[OF coreEq_simple(4)]
       hasCallback_coreEq[OF coreEq_simple(5)] hasCallback_coreEq[OF coreEq_simple(6)]
       hasCallback_coreEq[OF coreEq_simple(7)] hasCallback_coreEq[OF coreEq_simple(8)]
       hasCallback_coreEq[OF coreEq_simple(9)] hasCallback_coreEq[OF coreEq_simple(10)]
       hasCallback_coreEq[OF coreEq_simple(11)] hasCallback_coreEq[OF coreEq_simple(12)])

lemma playing_run:
  "run [Load, DecodeResolved 1 0 2, Play 1 1 1 0 1 False 0 False 0 0 0 0 True] init_engine = playing"
  "run [Load, DecodeResolved 1 0 2, Play 1 1 1 0 1 False 0 False 0 0 0 0 True, Stop 1] init_engine
     = stopAudio 1 playing"
  "run [Load, DecodeResolved 1 0 2, Play 1 1 1 0 1 False 0 False 0 0 0 0 True,
        ClockAdvanced 1, Pause 1] init_engine = pausedOne"
  by (simp_all add: run_def playing_def loaded_def pausedOne_def)

lemma playing_node:
  "canEnd playing 2"
  "n_onended (sourceNodes playing 2) = Some (0, 1)"
  "finishedCallbacks playing = []"
  "busHandle (objs playing 0) = 1"
  by (simp_all add: canEnd_def playing_def playAudio_def playAudioInternal_eq loaded_eq
        init_engine_def Let_def newInstance_def)

lemma natural_end_pushes: "finishedCallbacks (step (NodeEnded 2) playing) = [1]"
  by (simp add: nodeEnded_eq playing_node playing_facts)

lemma pausedOne_facts:
  "map_of (instances pausedOne) 1 = Some 0"
  "paused (objs pausedOne 0)"
  "sourceHandle (objs pausedOne 0) = 1"
  "busHandle (objs pausedOne 0) = 1"
  "pauseTime (objs pausedOne 0) = 1"
proof -
  have c: "map_of (instances (clockAdvanced 1 playing)) 1 = Some 0"
    "objs (clockAdvanced 1 playing) = objs playing"
    "currentTime (clockAdvanced 1 playing) = 1"
    by (simp_all add: clockAdvanced_def playing_facts)
  have p: "pausedOne = pauseAudio 1 (clockAdvanced 1 playing)" by (simp add: pausedOne_def run_def)
  have np: "\<not> paused (objs (clockAdvanced 1 playing) 0)" "\<not> stopped (objs (clockAdvanced 1 playing) 0)"
    by (simp_all add: c playing_facts)
  show "map_of (instances pausedOne) 1 = Some 0"
    "paused (objs pausedOne 0)"
    "sourceHandle (objs pausedOne 0) = 1"
    "busHandle (objs pausedOne 0) = 1"
    "pauseTime (objs pausedOne 0) = 1"
    unfolding p pauseAudio_eq[OF c(1) np] using c by (simp_all add: playing_facts playing_node)
qed

section \<open>Completion hooks\<close>

lemma ciI:
  assumes "\<And>h r. map_of (instances s) h = Some r \<Longrightarrow> sourceNode (objs s r) < nextNode s"
    "\<And>h r. map_of (instances s) h = Some r \<Longrightarrow>
        nodeKind s (sourceNode (objs s r)) = Some BufferSource"
    "\<And>h r. map_of (instances s) h = Some r \<Longrightarrow>
        n_onended (sourceNodes s (sourceNode (objs s r))) = Some (r, h)"
    "\<And>h r. map_of (instances s) h = Some r \<Longrightarrow>
        n_loop (sourceNodes s (sourceNode (objs s r))) = loop (objs s r)"
    "\<And>h r. map_of (instances s) h = Some r \<Longrightarrow> \<not> paused (objs s r) \<Longrightarrow> \<not> stopped (objs s r) \<Longrightarrow>
        canFire s (sourceNode (objs s r))"
    "\<And>n r h. n_onended (sourceNodes s n) = Some (r, h) \<Longrightarrow> r < nextObj s"
    "\<And>n r h. n_onended (sourceNodes s n) = Some (r, h) \<Longrightarrow> h < nextInstanceHandle s"
    "\<And>n r h. n_onended (sourceNodes s n) = Some (r, h) \<Longrightarrow> h \<notin> p_handle ` set (pendingPlays s)"
    "\<And>n r h r'. n_onended (sourceNodes s n) = Some (r, h) \<Longrightarrow> map_of (instances s) h = Some r' \<Longrightarrow> r' = r"
  shows "closuresInv s"
  unfolding closuresInv_def
proof (intro conjI allI impI)
  fix h r assume a: "map_of (instances s) h = Some r"
  show "sourceNode (objs s r) < nextNode s" by (rule assms(1)[OF a])
  show "nodeKind s (sourceNode (objs s r)) = Some BufferSource" by (rule assms(2)[OF a])
  show "n_onended (sourceNodes s (sourceNode (objs s r))) = Some (r, h)" by (rule assms(3)[OF a])
  show "n_loop (sourceNodes s (sourceNode (objs s r))) = loop (objs s r)" by (rule assms(4)[OF a])
  show "canFire s (sourceNode (objs s r))" if "\<not> paused (objs s r) \<and> \<not> stopped (objs s r)"
    using assms(5)[OF a] that by simp
next
  fix n r h assume a: "n_onended (sourceNodes s n) = Some (r, h)"
  show "r < nextObj s" by (rule assms(6)[OF a])
  show "h < nextInstanceHandle s" by (rule assms(7)[OF a])
  show "h \<notin> p_handle ` set (pendingPlays s)" by (rule assms(8)[OF a])
  show "r' = r" if "map_of (instances s) h = Some r'" for r' by (rule assms(9)[OF a that])
qed

lemma ciD:
  assumes "closuresInv s"
  shows "\<And>h r. map_of (instances s) h = Some r \<Longrightarrow> sourceNode (objs s r) < nextNode s"
    "\<And>h r. map_of (instances s) h = Some r \<Longrightarrow>
        nodeKind s (sourceNode (objs s r)) = Some BufferSource"
    "\<And>h r. map_of (instances s) h = Some r \<Longrightarrow>
        n_onended (sourceNodes s (sourceNode (objs s r))) = Some (r, h)"
    "\<And>h r. map_of (instances s) h = Some r \<Longrightarrow>
        n_loop (sourceNodes s (sourceNode (objs s r))) = loop (objs s r)"
    "\<And>h r. map_of (instances s) h = Some r \<Longrightarrow> \<not> paused (objs s r) \<Longrightarrow> \<not> stopped (objs s r) \<Longrightarrow>
        canFire s (sourceNode (objs s r))"
    "\<And>n r h. n_onended (sourceNodes s n) = Some (r, h) \<Longrightarrow> r < nextObj s"
    "\<And>n r h. n_onended (sourceNodes s n) = Some (r, h) \<Longrightarrow> h < nextInstanceHandle s"
    "\<And>n r h. n_onended (sourceNodes s n) = Some (r, h) \<Longrightarrow> h \<notin> p_handle ` set (pendingPlays s)"
    "\<And>n r h r'. n_onended (sourceNodes s n) = Some (r, h) \<Longrightarrow> map_of (instances s) h = Some r' \<Longrightarrow> r' = r"
  using assms unfolding closuresInv_def by blast+

lemma ci_nodes_differ:
  assumes "closuresInv s" "map_of (instances s) h = Some r" "map_of (instances s) k = Some r'"
    "h \<noteq> k"
  shows "sourceNode (objs s r) \<noteq> sourceNode (objs s r')" "r \<noteq> r'"
proof -
  note a = ciD(3)[OF assms(1,2)] ciD(3)[OF assms(1,3)]
  show "sourceNode (objs s r) \<noteq> sourceNode (objs s r')" using a assms(4) by auto
  then show "r \<noteq> r'" by auto
qed

lemma ci_shrink:
  assumes ci: "closuresInv s"
    and tb: "\<And>h r. map_of (instances s') h = Some r \<Longrightarrow> map_of (instances s) h = Some r"
    and pd: "p_handle ` set (pendingPlays s')
        \<subseteq> p_handle ` set (pendingPlays s) \<union> {h. nextInstanceHandle s \<le> h}"
    and eqs: "nextInstanceHandle s \<le> nextInstanceHandle s'"
      "nextObj s' = nextObj s" "nextNode s \<le> nextNode s'"
    and sn: "\<And>r. sourceNode (objs s' r) = sourceNode (objs s r)"
    and hk: "\<And>n. n_onended (sourceNodes s' n) = n_onended (sourceNodes s n)"
    and nk: "\<And>n. n < nextNode s \<Longrightarrow> nodeKind s' n = nodeKind s n"
    and lp: "\<And>h r. map_of (instances s') h = Some r \<Longrightarrow>
        n_loop (sourceNodes s' (sourceNode (objs s r))) = loop (objs s' r)"
    and cf: "\<And>h r. map_of (instances s') h = Some r \<Longrightarrow> \<not> paused (objs s' r) \<Longrightarrow>
        \<not> stopped (objs s' r) \<Longrightarrow> canFire s' (sourceNode (objs s r))"
  shows "closuresInv s'"
proof (rule ciI)
  fix h r assume a: "map_of (instances s') h = Some r"
  note b = tb[OF a]
  show "sourceNode (objs s' r) < nextNode s'" using ciD(1)[OF ci b] eqs(3) by (simp add: sn)
  show "nodeKind s' (sourceNode (objs s' r)) = Some BufferSource"
    using ciD(2)[OF ci b] nk[OF ciD(1)[OF ci b]] by (simp add: sn)
  show "n_onended (sourceNodes s' (sourceNode (objs s' r))) = Some (r, h)"
    using ciD(3)[OF ci b] by (simp add: sn hk)
  show "n_loop (sourceNodes s' (sourceNode (objs s' r))) = loop (objs s' r)"
    using lp[OF a] by (simp add: sn)
  show "canFire s' (sourceNode (objs s' r))" if "\<not> paused (objs s' r)" "\<not> stopped (objs s' r)"
    using cf[OF a that] by (simp add: sn)
next
  fix n r h assume "n_onended (sourceNodes s' n) = Some (r, h)"
  then have a: "n_onended (sourceNodes s n) = Some (r, h)" by (simp add: hk)
  show "r < nextObj s'" using ciD(6)[OF ci a] by (simp add: eqs)
  show "h < nextInstanceHandle s'" using ciD(7)[OF ci a] eqs(1) by simp
  show "h \<notin> p_handle ` set (pendingPlays s')" using ciD(7,8)[OF ci a] pd by auto
  show "r' = r" if "map_of (instances s') h = Some r'" for r'
    by (rule ciD(9)[OF ci a tb[OF that]])
qed

lemma ci_frame:
  assumes ci: "closuresInv s"
    and eqs: "instances s' = instances s"
      "nextObj s' = nextObj s" "nextNode s \<le> nextNode s'"
    and pd: "p_handle ` set (pendingPlays s')
        \<subseteq> p_handle ` set (pendingPlays s) \<union> {h. nextInstanceHandle s \<le> h}"
      "nextInstanceHandle s \<le> nextInstanceHandle s'"
    and ob: "\<And>r. ciObj (objs s' r) = ciObj (objs s r)"
    and nd: "\<And>n. ciNode (sourceNodes s' n) = ciNode (sourceNodes s n)"
    and nk: "\<And>n. n < nextNode s \<Longrightarrow> nodeKind s' n = nodeKind s n"
  shows "closuresInv s'"
proof -
  have o: "paused (objs s' r) = paused (objs s r)" "stopped (objs s' r) = stopped (objs s r)"
    "sourceNode (objs s' r) = sourceNode (objs s r)" "loop (objs s' r) = loop (objs s r)" for r
    using ob[of r] by (simp_all add: ciObj_def)
  have n: "n_onended (sourceNodes s' n) = n_onended (sourceNodes s n)"
    "n_loop (sourceNodes s' n) = n_loop (sourceNodes s n)"
    "canFire s' n = canFire s n" for n
    using nd[of n] by (auto simp: ciNode_def canFire_def)
  show ?thesis
  proof (rule ci_shrink[OF ci])
    show "map_of (instances s) h = Some r" if "map_of (instances s') h = Some r" for h r
      using that by (simp add: eqs)
    show "n_loop (sourceNodes s' (sourceNode (objs s r))) = loop (objs s' r)"
      if "map_of (instances s') h = Some r" for h r
      using that ciD(4)[OF ci, of h r] by (simp add: eqs o n)
    show "canFire s' (sourceNode (objs s r))"
      if "map_of (instances s') h = Some r" "\<not> paused (objs s' r)" "\<not> stopped (objs s' r)" for h r
      using that ciD(5)[OF ci, of h r] by (simp add: eqs o n)
  qed (simp_all add: eqs o n nk pd)
qed

lemmas ci_defs = ciObj_def ciNode_def

lemma ci_init: "closuresInv init_engine"
  by (simp add: closuresInv_def init_engine_def blank_source_node_def)

lemma ci_simple:
  assumes "closuresInv s"
  shows "closuresInv (setAudioVolume h v s)"
  "closuresInv (setAudioPan h v s)"
  "closuresInv (setAudioPitch h v s)"
  "closuresInv (setAudioPosition h x y s)"
  "closuresInv (snd (createAudioBus s))"
  "closuresInv (destroyAudioBus k s)"
  "closuresInv (setAudioBusVolume k v s)"
  "closuresInv (setAudioBusMuted k m s)"
  "closuresInv (setListenerPosition x y s)"
  "closuresInv (snd (pollFinishedCallback s))"
  "closuresInv (clockAdvanced dt s)"
  "closuresInv (snd (js_load_audio s))"
  "closuresInv (decodeResolved k b d s)"
  "closuresInv (decodeRejected k s)"
  "closuresInv (destroyAudio k s)"
proof -
  show "closuresInv (setAudioVolume h v s)"
    by (rule ci_frame[OF assms]) (simp_all add: ci_defs setAudioVolume_def host_defs split: option.splits)
  show "closuresInv (setAudioPan h v s)"
    by (rule ci_frame[OF assms]) (simp_all add: ci_defs setAudioPan_def host_defs split: option.splits)
  show "closuresInv (setAudioPitch h v s)"
    by (rule ci_frame[OF assms]) (simp_all add: ci_defs setAudioPitch_def host_defs split: option.splits)
  show "closuresInv (setAudioPosition h x y s)"
    by (rule ci_frame[OF assms]) (simp_all add: ci_defs setAudioPosition_def host_defs split: option.splits)
  show "closuresInv (snd (createAudioBus s))"
    by (rule ci_frame[OF assms]) (simp_all add: ci_defs createAudioBus_def host_defs Let_def)
  show "closuresInv (destroyAudioBus k s)"
    by (rule ci_frame[OF assms]) (simp_all add: ci_defs destroyAudioBus_def host_defs Let_def split: option.splits)
  show "closuresInv (setAudioBusVolume k v s)"
    by (rule ci_frame[OF assms]) (simp_all add: ci_defs setAudioBusVolume_def host_defs Let_def split: option.splits)
  show "closuresInv (setAudioBusMuted k m s)"
    by (rule ci_frame[OF assms]) (simp_all add: ci_defs setAudioBusMuted_def host_defs split: option.splits)
  show "closuresInv (setListenerPosition x y s)"
    by (rule ci_frame[OF assms]) (simp_all add: ci_defs setListenerPosition_def)
  show "closuresInv (snd (pollFinishedCallback s))"
    by (rule ci_frame[OF assms]) (simp_all add: ci_defs pollFinishedCallback_def split: list.splits)
  show "closuresInv (clockAdvanced dt s)"
    by (rule ci_frame[OF assms]) (simp_all add: ci_defs clockAdvanced_def)
  show "closuresInv (snd (js_load_audio s))"
    by (rule ci_frame[OF assms]) (simp_all add: ci_defs js_load_audio_def)
  show "closuresInv (decodeResolved k b d s)"
    by (rule ci_frame[OF assms]) (simp_all add: ci_defs decodeResolved_def)
  show "closuresInv (decodeRejected k s)"
    by (rule ci_frame[OF assms]) (simp_all add: ci_defs decodeRejected_def)
  show "closuresInv (destroyAudio k s)"
    by (rule ci_frame[OF assms]) (simp_all add: ci_defs destroyAudio_def)
qed

lemma ci_setLooping:
  assumes ci: "closuresInv s"
  shows "closuresInv (setAudioLooping h l s)"
proof (cases "map_of (instances s) h")
  case None
  then show ?thesis using ci by (simp add: setAudioLooping_def)
next
  case (Some r)
  let ?n = "sourceNode (objs s r)"
  have eq: "setAudioLooping h l s = s\<lparr>objs := (objs s)(r := (objs s r)\<lparr>loop := l\<rparr>),
      sourceNodes := (sourceNodes s)(?n := (sourceNodes s ?n)\<lparr>n_loop := l\<rparr>)\<rparr>"
    using Some by (simp add: setAudioLooping_def host_defs)
  show ?thesis unfolding eq
  proof (rule ci_shrink[OF ci])
    fix k r' assume a: "map_of (instances (s\<lparr>objs := (objs s)(r := (objs s r)\<lparr>loop := l\<rparr>),
      sourceNodes := (sourceNodes s)(?n := (sourceNodes s ?n)\<lparr>n_loop := l\<rparr>)\<rparr>)) k = Some r'"
    then have b: "map_of (instances s) k = Some r'" by simp
    show "map_of (instances s) k = Some r'" by (rule b)
    show "n_loop (sourceNodes (s\<lparr>objs := (objs s)(r := (objs s r)\<lparr>loop := l\<rparr>),
      sourceNodes := (sourceNodes s)(?n := (sourceNodes s ?n)\<lparr>n_loop := l\<rparr>)\<rparr>) (sourceNode (objs s r')))
       = loop (objs (s\<lparr>objs := (objs s)(r := (objs s r)\<lparr>loop := l\<rparr>),
      sourceNodes := (sourceNodes s)(?n := (sourceNodes s ?n)\<lparr>n_loop := l\<rparr>)\<rparr>) r')"
    proof (cases "k = h")
      case True
      then have "r' = r" using b Some by simp
      then show ?thesis by simp
    next
      case False
      note d = ci_nodes_differ[OF ci b Some False]
      then show ?thesis using ciD(4)[OF ci b] by auto
    qed
    show "canFire (s\<lparr>objs := (objs s)(r := (objs s r)\<lparr>loop := l\<rparr>),
      sourceNodes := (sourceNodes s)(?n := (sourceNodes s ?n)\<lparr>n_loop := l\<rparr>)\<rparr>) (sourceNode (objs s r'))"
      if "\<not> paused (objs (s\<lparr>objs := (objs s)(r := (objs s r)\<lparr>loop := l\<rparr>),
      sourceNodes := (sourceNodes s)(?n := (sourceNodes s ?n)\<lparr>n_loop := l\<rparr>)\<rparr>) r')"
       "\<not> stopped (objs (s\<lparr>objs := (objs s)(r := (objs s r)\<lparr>loop := l\<rparr>),
      sourceNodes := (sourceNodes s)(?n := (sourceNodes s ?n)\<lparr>n_loop := l\<rparr>)\<rparr>) r')"
    proof -
      have "\<not> paused (objs s r')" "\<not> stopped (objs s r')" using that by (simp_all split: if_splits)
      from ciD(5)[OF ci b this] show ?thesis by (auto simp: canFire_def)
    qed
  qed simp_all
qed

lemma ci_pause:
  assumes ci: "closuresInv s"
  shows "closuresInv (pauseAudio h s)"
proof (cases "map_of (instances s) h")
  case None
  then show ?thesis using ci by (simp add: pauseAudio_def)
next
  case (Some r)
  show ?thesis
  proof (cases "paused (objs s r) \<or> stopped (objs s r)")
    case True
    then show ?thesis using ci Some by (auto simp: pauseAudio_def)
  next
    case False
    then have np: "\<not> paused (objs s r)" "\<not> stopped (objs s r)" by simp_all
    let ?n = "sourceNode (objs s r)"
    let ?s = "s\<lparr>objs := (objs s)(r := (objs s r)\<lparr>paused := True,
                   pauseTime := currentTime s - startTime (objs s r)\<rparr>),
       sourceNodes := (sourceNodes s)(?n := (sourceNodes s ?n)\<lparr>n_stopCalled := True\<rparr>)\<rparr>"
    have eq: "pauseAudio h s = ?s" by (rule pauseAudio_eq[OF Some np])
    show ?thesis unfolding eq
    proof (rule ci_shrink[OF ci])
      fix k r' assume "map_of (instances ?s) k = Some r'"
      then have b: "map_of (instances s) k = Some r'" by simp
      show "map_of (instances s) k = Some r'" by (rule b)
      show "n_loop (sourceNodes ?s (sourceNode (objs s r'))) = loop (objs ?s r')"
        using ciD(4)[OF ci b] by auto
      show "canFire ?s (sourceNode (objs s r'))"
        if "\<not> paused (objs ?s r')" "\<not> stopped (objs ?s r')"
      proof -
        have ne: "r' \<noteq> r" using that(1) by auto
        then have "k \<noteq> h" using b Some by auto
        note d = ci_nodes_differ[OF ci b Some this]
        have "\<not> paused (objs s r')" "\<not> stopped (objs s r')" using that ne by simp_all
        from ciD(5)[OF ci b this] show ?thesis using d by (auto simp: canFire_def)
      qed
    qed simp_all
  qed
qed

lemma ci_delete:
  assumes ci: "closuresInv s"
  shows "closuresInv (s\<lparr>instances := AList.delete h (instances s)\<rparr>)"
proof (rule ci_shrink[OF ci])
  fix k r assume "map_of (instances (s\<lparr>instances := AList.delete h (instances s)\<rparr>)) k = Some r"
  then have b: "map_of (instances s) k = Some r" by (simp add: delete_conv' split: if_splits)
  show "map_of (instances s) k = Some r" by (rule b)
  show "n_loop (sourceNodes (s\<lparr>instances := AList.delete h (instances s)\<rparr>) (sourceNode (objs s r)))
      = loop (objs (s\<lparr>instances := AList.delete h (instances s)\<rparr>) r)"
    using ciD(4)[OF ci b] by auto
  show "canFire (s\<lparr>instances := AList.delete h (instances s)\<rparr>) (sourceNode (objs s r))"
    if "\<not> paused (objs (s\<lparr>instances := AList.delete h (instances s)\<rparr>) r)"
       "\<not> stopped (objs (s\<lparr>instances := AList.delete h (instances s)\<rparr>) r)"
    using ciD(5)[OF ci b] that by (auto simp: canFire_def)
qed simp_all

lemma ci_stop:
  assumes ci: "closuresInv s"
  shows "closuresInv (stopAudio h s)"
proof (cases "map_of (instances s) h")
  case None
  then show ?thesis using ci by (simp add: stopAudio_def)
next
  case (Some r)
  show ?thesis
  proof (cases "stopped (objs s r)")
    case True
    then show ?thesis using ci_delete[OF ci, of h] by (simp add: stopAudio_eq[OF Some])
  next
    case False
    let ?n = "sourceNode (objs s r)"
    let ?s = "s\<lparr>objs := (objs s)(r := (objs s r)\<lparr>stopped := True\<rparr>),
       sourceNodes := (sourceNodes s)(?n := (sourceNodes s ?n)\<lparr>n_stopCalled := True\<rparr>),
       connections := disconnectAll (objs s r) (connections s),
       instances := AList.delete h (instances s)\<rparr>"
    have eq: "stopAudio h s = ?s" using False by (simp add: stopAudio_eq[OF Some])
    show ?thesis unfolding eq
    proof (rule ci_shrink[OF ci])
      fix k r' assume "map_of (instances ?s) k = Some r'"
      then have b: "map_of (instances s) k = Some r'" and kh: "k \<noteq> h"
        by (simp_all add: delete_conv' split: if_splits)
      note d = ci_nodes_differ[OF ci b Some kh]
      show "map_of (instances s) k = Some r'" by (rule b)
      show "n_loop (sourceNodes ?s (sourceNode (objs s r'))) = loop (objs ?s r')"
        using ciD(4)[OF ci b] d by auto
      show "canFire ?s (sourceNode (objs s r'))"
        if "\<not> paused (objs ?s r')" "\<not> stopped (objs ?s r')"
      proof -
        have "\<not> paused (objs s r')" "\<not> stopped (objs s r')" using that d by simp_all
        from ciD(5)[OF ci b this] show ?thesis using d by (auto simp: canFire_def)
      qed
    qed simp_all
  qed
qed

lemma ci_stopAll:
  assumes wf: "wellFormed s" and ci: "closuresInv s"
  shows "closuresInv (stopAllAudio bh s)"
proof (rule stopAllAudio_induct[where P = closuresInv])
  show "distinct (map fst (instances s))" by (rule handlesD(2)[OF wfD(2)[OF wf]])
  show "closuresInv s" by (rule ci)
  show "closuresInv (stopAudio h u)" if "closuresInv u" for u h using that by (rule ci_stop)
qed

lemma ci_nodeEnded:
  assumes wf: "wellFormed s" and ci: "closuresInv s"
  shows "closuresInv (nodeEnded n s)"
proof (cases "canEnd s n")
  case False
  then show ?thesis using ci by (simp add: nodeEnded_def)
next
  case True
  note cf = canEnd_canFire[OF True]
  have nl: "\<not> n_loop (sourceNodes s n)" using True by (simp add: canEnd_def Let_def)
  let ?e = "s\<lparr>sourceNodes := (sourceNodes s)(n := (sourceNodes s n)\<lparr>n_ended := True\<rparr>)\<rparr>"
  show ?thesis
  proof (cases "n_onended (sourceNodes s n)")
    case None
    have eq: "nodeEnded n s = ?e" using True None by (simp add: nodeEnded_eq)
    show ?thesis unfolding eq
    proof (rule ci_shrink[OF ci])
      fix k r' assume "map_of (instances ?e) k = Some r'"
      then have b: "map_of (instances s) k = Some r'" by simp
      have ne: "sourceNode (objs s r') \<noteq> n" using ciD(3)[OF ci b] None by auto
      show "map_of (instances s) k = Some r'" by (rule b)
      show "n_loop (sourceNodes ?e (sourceNode (objs s r'))) = loop (objs ?e r')"
        using ciD(4)[OF ci b] by auto
      show "canFire ?e (sourceNode (objs s r'))" if "\<not> paused (objs ?e r')" "\<not> stopped (objs ?e r')"
        using ciD(5)[OF ci b] that ne by (auto simp: canFire_def)
    qed simp_all
  next
    case (Some rh)
    obtain r h where rh: "rh = (r, h)" by (cases rh)
    have on: "n_onended (sourceNodes s n) = Some (r, h)" using Some rh by simp
    note d = hooksD[OF wfD(1)[OF wf] cf on]
    have "loop (objs s r) = n_loop (sourceNodes s n)" using ciD(4)[OF ci d(1)] d(4) by simp
    then have lp: "\<not> loop (objs s r)" using nl by simp
    let ?s = "s\<lparr>sourceNodes := (sourceNodes s)(n := (sourceNodes s n)\<lparr>n_ended := True\<rparr>),
                        finishedCallbacks := (if hasCallback (objs s r)
                            then finishedCallbacks s @ [h] else finishedCallbacks s),
                        instances := AList.delete h (instances s)\<rparr>"
    have eq: "nodeEnded n s = ?s" using True on lp d(3) by (simp add: nodeEnded_eq)
    show ?thesis unfolding eq
    proof (rule ci_shrink[OF ci])
      fix k r' assume "map_of (instances ?s) k = Some r'"
      then have b: "map_of (instances s) k = Some r'" and kh: "k \<noteq> h"
        by (simp_all add: delete_conv' split: if_splits)
      have ne: "sourceNode (objs s r') \<noteq> n"
        using ci_nodes_differ(1)[OF ci b d(1) kh] d(4) by simp
      show "map_of (instances s) k = Some r'" by (rule b)
      show "n_loop (sourceNodes ?s (sourceNode (objs s r'))) = loop (objs ?s r')"
        using ciD(4)[OF ci b] by auto
      show "canFire ?s (sourceNode (objs s r'))" if "\<not> paused (objs ?s r')" "\<not> stopped (objs ?s r')"
        using ciD(5)[OF ci b] that ne by (auto simp: canFire_def)
    qed simp_all
  qed
qed

lemma ci_resume:
  assumes ci: "closuresInv s"
  shows "closuresInv (resumeAudio h s)"
proof (cases "map_of (instances s) h")
  case None
  then show ?thesis using ci by (simp add: resumeAudio_def)
next
  case (Some r)
  show ?thesis
  proof (cases "\<not> paused (objs s r) \<or> stopped (objs s r)")
    case True
    then show ?thesis using ci Some by (auto simp: resumeAudio_def)
  next
    case False
    show ?thesis
    proof (cases "sources s (sourceHandle (objs s r))")
      case None
      then show ?thesis using ci Some False by (simp add: resumeAudio_absent)
    next
      case (Some src)
      note tb = \<open>map_of (instances s) h = Some r\<close>
      let ?nn = "nextNode s"
      let ?s = "s\<lparr>nextNode := Suc (nextNode s),
       nodeKind := (nodeKind s)(nextNode s \<mapsto> BufferSource),
       sourceNodes := (sourceNodes s)(nextNode s :=
           \<lparr>n_buffer = Some (buffer src), n_loop = loop (objs s r),
            n_playbackRate = pitch (objs s r), n_onended = Some (r, h),
            n_started = Some (0, pauseTime (objs s r)), n_stopCalled = False,
            n_ended = False\<rparr>),
       connections := connections s @ resumeChain (objs s r) (nextNode s),
       objs := (objs s)(r := (objs s r)\<lparr>sourceNode := nextNode s, paused := False,
                   startTime := currentTime s - pauseTime (objs s r)\<rparr>)\<rparr>"
      have eq: "resumeAudio h s = ?s"
        using tb False Some by (simp add: resumeAudio_cases)
      have old: "r' \<noteq> r \<and> sourceNode (objs s r') < ?nn" if "map_of (instances s) k = Some r'" "k \<noteq> h" for k r'
        using ci_nodes_differ(2)[OF ci that(1) tb that(2)] ciD(1)[OF ci that(1)] by simp
      note hk = ciD(3)[OF ci tb]
      show ?thesis unfolding eq
      proof (rule ciI)
        fix k r' assume "map_of (instances ?s) k = Some r'"
        then have b: "map_of (instances s) k = Some r'" by simp
        show "sourceNode (objs ?s r') < nextNode ?s"
          using ciD(1)[OF ci b] by simp
        show "nodeKind ?s (sourceNode (objs ?s r')) = Some BufferSource"
          using ciD(2)[OF ci b] by simp
        show "n_onended (sourceNodes ?s (sourceNode (objs ?s r'))) = Some (r', k)"
        proof (cases "k = h")
          case True then show ?thesis using b tb by simp
        next
          case False
          with old[OF b] ciD(3)[OF ci b] show ?thesis by simp
        qed
        show "n_loop (sourceNodes ?s (sourceNode (objs ?s r'))) = loop (objs ?s r')"
        proof (cases "k = h")
          case True then show ?thesis using b tb by simp
        next
          case False
          with old[OF b] ciD(4)[OF ci b] show ?thesis by simp
        qed
        show "canFire ?s (sourceNode (objs ?s r'))"
          if "\<not> paused (objs ?s r')" "\<not> stopped (objs ?s r')"
        proof (cases "k = h")
          case True then show ?thesis using b tb by (simp add: canFire_def)
        next
          case False
          note o = old[OF b False]
          have "\<not> paused (objs s r')" "\<not> stopped (objs s r')" using that o by simp_all
          from ciD(5)[OF ci b this] show ?thesis using o by (simp add: canFire_def)
        qed
      next
        fix n r' k assume a: "n_onended (sourceNodes ?s n) = Some (r', k)"
        have c: "n_onended (sourceNodes s n') = Some (r', k)" if "n' = (if n = ?nn then sourceNode (objs s r) else n)" for n'
          using a hk that by (auto split: if_splits)
        note c' = c[OF refl]
        show "r' < nextObj ?s" using ciD(6)[OF ci c'] by simp
        show "k < nextInstanceHandle ?s" using ciD(7)[OF ci c'] by simp
        show "k \<notin> p_handle ` set (pendingPlays ?s)" using ciD(8)[OF ci c'] by simp
        show "r'' = r'" if "map_of (instances ?s) k = Some r''" for r''
          using ciD(9)[OF ci c', of r''] that by simp
      qed
    qed
  qed
qed

lemma ci_playInternal:
  assumes ci: "closuresInv t"
    and fresh: "p_handle p < nextInstanceHandle t" "p_handle p \<notin> p_handle ` set (pendingPlays t)"
    and nohook: "\<And>n r. n_onended (sourceNodes t n) \<noteq> Some (r, p_handle p)"
  shows "closuresInv (playAudioInternal p src t)"
proof -
  let ?s = "playAudioInternal p src t"
  let ?nn = "nextNode t"
  note eq = playAudioInternal_eq[of p src t]
  have nt: "map_of (instances t) (p_handle p) = None"
  proof (cases "map_of (instances t) (p_handle p)")
    case (Some r)
    from ciD(3)[OF ci Some] nohook show ?thesis by simp
  qed simp
  have tb: "map_of (instances ?s) = (map_of (instances t))(p_handle p \<mapsto> nextObj t)"
    by (simp add: eq update_conv')
  have ob: "objs ?s = (objs t)(nextObj t := newInstance p t)" by (simp add: eq)
  have sn: "sourceNodes ?s = (sourceNodes t)(?nn :=
           \<lparr>n_buffer = Some (buffer src), n_loop = p_loop p,
            n_playbackRate = p_pitch p, n_onended = Some (nextObj t, p_handle p),
            n_started = Some (currentTime t + p_delay p, 0), n_stopCalled = False,
            n_ended = False\<rparr>)" by (simp add: eq)
  have nx: "?nn < nextNode ?s" "nextObj ?s = Suc (nextObj t)"
    "nextInstanceHandle ?s = nextInstanceHandle t" "pendingPlays ?s = pendingPlays t"
    by (simp_all add: eq)
  have nk: "nodeKind ?s ?nn = Some BufferSource" "\<And>n. n < ?nn \<Longrightarrow> nodeKind ?s n = nodeKind t n"
    by (simp_all add: eq)
  have new: "sourceNode (newInstance p t) = ?nn" "loop (newInstance p t) = p_loop p"
    by (simp_all add: newInstance_def)
  have old: "k \<noteq> p_handle p \<and> r < nextObj t \<and> map_of (instances t) k = Some r
      \<and> sourceNode (objs t r) < ?nn"
    if "map_of (instances ?s) k = Some r" "k \<noteq> p_handle p \<or> r \<noteq> nextObj t" for k r
  proof -
    have 1: "k \<noteq> p_handle p"
    proof
      assume "k = p_handle p"
      then show False using that by (simp add: tb)
    qed
    then have 2: "map_of (instances t) k = Some r" using that(1) by (simp add: tb)
    show ?thesis using 1 2 ciD(1)[OF ci 2] ciD(6)[OF ci ciD(3)[OF ci 2]] by simp
  qed
  have cases: "(k = p_handle p \<and> r = nextObj t) \<or>
      (k \<noteq> p_handle p \<and> r < nextObj t \<and> map_of (instances t) k = Some r
      \<and> sourceNode (objs t r) < ?nn)"
    if "map_of (instances ?s) k = Some r" for k r
    using old[OF that] that by (auto simp: tb)
  show ?thesis
  proof (rule ciI)
    fix k r assume a: "map_of (instances ?s) k = Some r"
    from cases[OF a]
    show "sourceNode (objs ?s r) < nextNode ?s"
    proof
      assume "k = p_handle p \<and> r = nextObj t"
      then show ?thesis using nx(1) by (simp add: ob new)
    next
      assume o: "k \<noteq> p_handle p \<and> r < nextObj t \<and> map_of (instances t) k = Some r
        \<and> sourceNode (objs t r) < ?nn"
      then show ?thesis using nx(1) by (simp add: ob)
    qed
    from cases[OF a]
    show "nodeKind ?s (sourceNode (objs ?s r)) = Some BufferSource"
    proof
      assume "k = p_handle p \<and> r = nextObj t"
      then show ?thesis using nk(1) by (simp add: ob new)
    next
      assume o: "k \<noteq> p_handle p \<and> r < nextObj t \<and> map_of (instances t) k = Some r
        \<and> sourceNode (objs t r) < ?nn"
      then have "nodeKind t (sourceNode (objs t r)) = Some BufferSource" using ciD(2)[OF ci, of k r] by simp
      then show ?thesis using o nk(2)[of "sourceNode (objs t r)"] by (simp add: ob)
    qed
    from cases[OF a]
    show "n_onended (sourceNodes ?s (sourceNode (objs ?s r))) = Some (r, k)"
    proof
      assume "k = p_handle p \<and> r = nextObj t"
      then show ?thesis by (simp add: ob new sn)
    next
      assume o: "k \<noteq> p_handle p \<and> r < nextObj t \<and> map_of (instances t) k = Some r
        \<and> sourceNode (objs t r) < ?nn"
      then have "n_onended (sourceNodes t (sourceNode (objs t r))) = Some (r, k)"
        using ciD(3)[OF ci, of k r] by simp
      then show ?thesis using o by (simp add: ob sn)
    qed
    from cases[OF a]
    show "n_loop (sourceNodes ?s (sourceNode (objs ?s r))) = loop (objs ?s r)"
    proof
      assume "k = p_handle p \<and> r = nextObj t"
      then show ?thesis by (simp add: ob new sn)
    next
      assume o: "k \<noteq> p_handle p \<and> r < nextObj t \<and> map_of (instances t) k = Some r
        \<and> sourceNode (objs t r) < ?nn"
      then have "n_loop (sourceNodes t (sourceNode (objs t r))) = loop (objs t r)"
        using ciD(4)[OF ci, of k r] by simp
      then show ?thesis using o by (simp add: ob sn)
    qed
    show "canFire ?s (sourceNode (objs ?s r))" if np: "\<not> paused (objs ?s r)" "\<not> stopped (objs ?s r)"
      using cases[OF a]
    proof
      assume "k = p_handle p \<and> r = nextObj t"
      then show ?thesis by (simp add: ob new sn canFire_def)
    next
      assume o: "k \<noteq> p_handle p \<and> r < nextObj t \<and> map_of (instances t) k = Some r
        \<and> sourceNode (objs t r) < ?nn"
      then have "\<not> paused (objs t r)" "\<not> stopped (objs t r)" using np by (simp_all add: ob)
      from ciD(5)[OF ci _ this, of k] o have "canFire t (sourceNode (objs t r))" by simp
      then show ?thesis using o by (simp add: ob sn canFire_def)
    qed
  next
    fix n r k assume a: "n_onended (sourceNodes ?s n) = Some (r, k)"
    have c: "(n = ?nn \<and> r = nextObj t \<and> k = p_handle p)
        \<or> (n \<noteq> ?nn \<and> n_onended (sourceNodes t n) = Some (r, k))"
      using a by (auto simp: sn split: if_splits)
    from c show "r < nextObj ?s"
    proof
      assume "n = ?nn \<and> r = nextObj t \<and> k = p_handle p"
      then show ?thesis by (simp add: nx)
    next
      assume "n \<noteq> ?nn \<and> n_onended (sourceNodes t n) = Some (r, k)"
      then show ?thesis using ciD(6)[OF ci, of n r k] by (simp add: nx)
    qed
    from c show "k < nextInstanceHandle ?s"
    proof
      assume "n = ?nn \<and> r = nextObj t \<and> k = p_handle p"
      then show ?thesis using fresh(1) by (simp add: nx)
    next
      assume "n \<noteq> ?nn \<and> n_onended (sourceNodes t n) = Some (r, k)"
      then show ?thesis using ciD(7)[OF ci, of n r k] by (simp add: nx)
    qed
    from c show "k \<notin> p_handle ` set (pendingPlays ?s)"
    proof
      assume "n = ?nn \<and> r = nextObj t \<and> k = p_handle p"
      then show ?thesis using fresh(2) by (simp add: nx)
    next
      assume "n \<noteq> ?nn \<and> n_onended (sourceNodes t n) = Some (r, k)"
      then show ?thesis using ciD(8)[OF ci, of n r k] by (simp add: nx)
    qed
    show "r' = r" if t: "map_of (instances ?s) k = Some r'" for r'
      using c
    proof
      assume "n = ?nn \<and> r = nextObj t \<and> k = p_handle p"
      then show ?thesis using t by (simp add: tb)
    next
      assume o: "n \<noteq> ?nn \<and> n_onended (sourceNodes t n) = Some (r, k)"
      then have "k \<noteq> p_handle p" using nohook[of n r] by auto
      then have "map_of (instances t) k = Some r'" using t by (simp add: tb)
      from ciD(9)[OF ci _ this, of n r] o show ?thesis by simp
    qed
  qed
qed

lemma ci_pending:
  assumes ci: "closuresInv (s\<lparr>pendingPlays := xs\<rparr>)"
    and sub: "p_handle ` set ys \<subseteq> p_handle ` set xs"
  shows "closuresInv (s\<lparr>pendingPlays := ys\<rparr>)"
  by (rule ci_frame[OF ci]) (use sub in \<open>auto simp: ci_defs\<close>)

lemma ci_playAudio:
  assumes wf: "wellFormed s" and ci: "closuresInv s"
  shows "closuresInv (snd (playAudio sh bh vol pan pit lp del spat px py mind maxd cb s))"
proof (cases "initialized s")
  case False
  then show ?thesis using ci by (simp add: playAudio_def)
next
  case True
  let ?h = "nextInstanceHandle s"
  let ?p = "\<lparr>p_handle = ?h, p_sourceHandle = sh, p_busHandle = bh,
                  p_volume = vol, p_pan = pan, p_pitch = pit, p_loop = lp, p_delay = del,
                  p_isSpatial = spat, p_posX = px, p_posY = py, p_minDistance = mind,
                  p_maxDistance = maxd, p_hasCallback = cb, p_retries = 0\<rparr>"
  let ?s1 = "s\<lparr>nextInstanceHandle := Suc ?h\<rparr>"
  show ?thesis
  proof (cases "sources s sh")
    case None
    show ?thesis
      by (rule ci_frame[OF ci]) (use True None in \<open>auto simp: playAudio_cases ci_defs\<close>)
  next
    case (Some src)
    have c1: "closuresInv ?s1" by (rule ci_frame[OF ci]) (auto simp: ci_defs)
    have np: "?h \<notin> p_handle ` set (pendingPlays ?s1)"
    proof
      assume "?h \<in> p_handle ` set (pendingPlays ?s1)"
      then obtain q where "q \<in> set (pendingPlays s)" "?h = p_handle q" by auto
      with handlesD(5)[OF wfD(2)[OF wf], of q] show False by simp
    qed
    have nh: "n_onended (sourceNodes ?s1 n) \<noteq> Some (r, p_handle ?p)" for n r
    proof
      assume "n_onended (sourceNodes ?s1 n) = Some (r, p_handle ?p)"
      then have "n_onended (sourceNodes s n) = Some (r, ?h)" by simp
      from ciD(7)[OF ci this] show False by simp
    qed
    have "closuresInv (playAudioInternal ?p src ?s1)"
      by (rule ci_playInternal[OF c1 _ _ nh]) (use np in simp_all)
    then show ?thesis unfolding playAudio_cases using True Some by simp
  qed
qed

lemma nih_playInternal [simp]:
  "nextInstanceHandle (playAudioInternal p src s) = nextInstanceHandle s"
  by (simp add: playAudioInternal_eq)

lemma sweep_ci:
  assumes "closuresInv (s\<lparr>pendingPlays := still @ ps\<rparr>)"
    "distinct (map p_handle (still @ ps))"
    "\<And>q. q \<in> set (still @ ps) \<Longrightarrow> p_handle q < nextInstanceHandle s"
  shows "closuresInv ((snd (sweepPending ps still s))\<lparr>pendingPlays := fst (sweepPending ps still s)\<rparr>)"
  using assms
proof (induction ps arbitrary: still s)
  case Nil
  then show ?case by simp
next
  case (Cons p rest)
  note ci = Cons.prems(1) and dist = Cons.prems(2) and lt = Cons.prems(3)
  show ?case
  proof (cases "sources s (p_sourceHandle p)")
    case (Some src)
    let ?t = "s\<lparr>pendingPlays := still @ rest\<rparr>"
    have ct: "closuresInv ?t" by (rule ci_pending[OF ci]) auto
    have f1: "p_handle p < nextInstanceHandle ?t" using lt[of p] by simp
    have f2: "p_handle p \<notin> p_handle ` set (pendingPlays ?t)" using dist by auto
    have f3: "n_onended (sourceNodes ?t n) \<noteq> Some (r, p_handle p)" for n r
    proof
      assume "n_onended (sourceNodes ?t n) = Some (r, p_handle p)"
      then have "n_onended (sourceNodes (s\<lparr>pendingPlays := still @ p # rest\<rparr>) n) = Some (r, p_handle p)"
        by simp
      from ciD(8)[OF ci this] show False by simp
    qed
    have "closuresInv (playAudioInternal p src ?t)" by (rule ci_playInternal[OF ct f1 f2 f3])
    then have 1: "closuresInv ((playAudioInternal p src s)\<lparr>pendingPlays := still @ rest\<rparr>)"
      by (simp add: playInternal_pending)
    have 2: "distinct (map p_handle (still @ rest))" using dist by simp
    have 3: "p_handle q < nextInstanceHandle (playAudioInternal p src s)" if "q \<in> set (still @ rest)" for q
      using lt[of q] that by auto
    from Cons.IH[OF 1 2 3] show ?thesis using Some by simp
  next
    case None
    let ?p = "p\<lparr>p_retries := p_retries p + 1\<rparr>"
    show ?thesis
    proof (cases "p_retries ?p < 10")
      case True
      have 1: "closuresInv (s\<lparr>pendingPlays := (still @ [?p]) @ rest\<rparr>)"
        by (rule ci_pending[OF ci]) auto
      have 2: "distinct (map p_handle ((still @ [?p]) @ rest))" using dist by simp
      have 3: "p_handle q < nextInstanceHandle s" if "q \<in> set ((still @ [?p]) @ rest)" for q
        using lt[of q] lt[of p] that by auto
      from Cons.IH[OF 1 2 3] show ?thesis using None True by (simp add: Let_def)
    next
      case False
      have 1: "closuresInv (s\<lparr>pendingPlays := still @ rest\<rparr>)"
        by (rule ci_pending[OF ci]) auto
      have 2: "distinct (map p_handle (still @ rest))" using dist by simp
      have 3: "p_handle q < nextInstanceHandle s" if "q \<in> set (still @ rest)" for q
        using lt[of q] that by auto
      from Cons.IH[OF 1 2 3] show ?thesis using None False by (simp add: Let_def)
    qed
  qed
qed

lemma ci_timeoutFired:
  assumes wf: "wellFormed s" and ci: "closuresInv s"
  shows "closuresInv (timeoutFired s)"
proof (cases "timeouts s = 0")
  case True
  then show ?thesis using ci by (simp add: timeoutFired_def)
next
  case False
  let ?s0 = "s\<lparr>timeouts := timeouts s - 1\<rparr>"
  have c0: "closuresInv (?s0\<lparr>pendingPlays := [] @ pendingPlays s\<rparr>)"
    by (rule ci_frame[OF ci]) (auto simp: ci_defs)
  have d: "distinct (map p_handle ([] @ pendingPlays s))"
    using handlesD(7)[OF wfD(2)[OF wf]] by simp
  have l: "p_handle q < nextInstanceHandle ?s0" if "q \<in> set ([] @ pendingPlays s)" for q
    using handlesD(5)[OF wfD(2)[OF wf], of q] that by simp
  note a = sweep_ci[OF c0 d l]
  obtain st s1 where r: "sweepPending (pendingPlays s) [] ?s0 = (st, s1)"
    by (cases "sweepPending (pendingPlays s) [] ?s0")
  have a': "closuresInv (s1\<lparr>pendingPlays := st\<rparr>)" using a r by simp
  have e: "timeoutFired s = (if st \<noteq> [] then s1\<lparr>pendingPlays := st, timeouts := Suc (timeouts s1)\<rparr>
        else s1\<lparr>pendingPlays := st\<rparr>)"
    unfolding timeoutFired_eq[OF False] using r by (simp add: Let_def)
  show ?thesis
    by (rule ci_frame[OF a']) (auto simp: e ci_defs)
qed

lemma ci_step: "wellFormed s \<Longrightarrow> closuresInv s \<Longrightarrow> closuresInv (step e s)"
  by (cases e)
     (simp_all add: ci_simple ci_setLooping ci_pause ci_resume ci_stop ci_stopAll ci_nodeEnded
        ci_playAudio ci_timeoutFired)

lemma ci_run: "wellFormed s \<Longrightarrow> closuresInv s \<Longrightarrow> closuresInv (run es s)"
proof (induction es arbitrary: s)
  case Nil then show ?case by (simp add: run_def)
next
  case (Cons e es)
  have "closuresInv (run es (step e s))"
    by (rule Cons.IH[OF wf_step[OF Cons.prems(1)] ci_step[OF Cons.prems]])
  then show ?case by (simp add: run_def)
qed

lemma ci_reachable: "closuresInv (run es init_engine)"
  by (rule ci_run[OF wf_init ci_init])

lemma disarmedD:
  assumes "disarmed s h" "n_onended (sourceNodes s n) = Some (r, h)"
  shows "r < nextObj s" "stopped (objs s r)"
  using assms unfolding disarmed_def by blast+

lemma disarmed_mono:
  assumes d: "disarmed s h"
    and hk: "\<And>n r. n_onended (sourceNodes s' n) = Some (r, h) \<Longrightarrow>
        n_onended (sourceNodes s n) = Some (r, h)"
    and nx: "nextObj s \<le> nextObj s'"
    and st: "\<And>r. r < nextObj s \<Longrightarrow> stopped (objs s r) \<Longrightarrow> stopped (objs s' r)"
  shows "disarmed s' h"
  unfolding disarmed_def
proof (intro allI impI)
  fix n r assume "n_onended (sourceNodes s' n) = Some (r, h)"
  note a = disarmedD[OF d hk[OF this]]
  show "r < nextObj s' \<and> stopped (objs s' r)" using a nx st[OF a] by simp
qed

lemma disarmed_frame:
  assumes "instCoreEq s s'" "disarmed s h"
  shows "disarmed s' h"
proof (rule disarmed_mono[OF assms(2)])
  have n: "nodeView s' n = nodeView s n" for n using assms(1) by (simp add: instCoreEq_def)
  have o: "objCore (objs s' r) = objCore (objs s r)" for r using assms(1) by (simp add: instCoreEq_def)
  show "n_onended (sourceNodes s n) = Some (r, h)" if "n_onended (sourceNodes s' n) = Some (r, h)" for n r
    using that n[of n] by (simp add: nodeView_def)
  show "nextObj s \<le> nextObj s'" using assms(1) by (simp add: instCoreEq_def)
  show "stopped (objs s' r)" if "stopped (objs s r)" for r
    using that o[of r] by (simp add: objCore_def)
qed

lemma disarmed_pause: assumes "disarmed s h" shows "disarmed (pauseAudio k s) h"
  by (rule disarmed_mono[OF assms]) (auto simp: pauseAudio_def host_defs split: option.splits if_splits)

lemma disarmed_resume:
  assumes "disarmed s h" "map_of (instances s) h = None"
  shows "disarmed (resumeAudio k s) h"
  by (rule disarmed_mono[OF assms(1)])
     (use assms(2) in \<open>auto simp: resumeAudio_cases split: option.splits if_splits\<close>)

lemma disarmed_stop: assumes "disarmed s h" shows "disarmed (stopAudio k s) h"
  by (rule disarmed_mono[OF assms]) (auto simp: stopAudio_cases split: option.splits if_splits)

lemma disarmed_stopAllBody: "disarmed t h \<Longrightarrow> disarmed (stopAllBody bh e t) h"
proof -
  assume d: "disarmed t h"
  obtain k r where e: "e = (k, r)" by (cases e)
  show ?thesis
  proof (cases "stopped (objs t r)")
    case True
    show ?thesis by (rule disarmed_mono[OF d])
        (auto simp: stopAllBody_def e Let_def stopInstance_stopped[OF True] split: if_splits)
  next
    case False
    show ?thesis by (rule disarmed_mono[OF d])
        (auto simp: stopAllBody_def e Let_def stopInstance_eq[OF False] split: if_splits)
  qed
qed

lemma disarmed_stopAll: "disarmed s h \<Longrightarrow> disarmed (stopAllAudio bh s) h"
proof -
  have "disarmed (fold (stopAllBody bh) es t) h" if "disarmed t h" for es t
    using that by (induction es arbitrary: t) (simp_all add: disarmed_stopAllBody)
  then show "disarmed s h \<Longrightarrow> disarmed (stopAllAudio bh s) h" by (simp add: stopAllAudio_def)
qed

lemma disarmed_nodeEnded: assumes "disarmed s h" shows "disarmed (nodeEnded n s) h"
  by (rule disarmed_mono[OF assms]) (auto simp: nodeEnded_eq split: option.splits if_splits)

lemma disarmed_playInternal:
  assumes "disarmed s h" "p_handle p \<noteq> h"
  shows "disarmed (playAudioInternal p src s) h"
  by (rule disarmed_mono[OF assms(1)])
     (use assms(2) in \<open>auto simp: playAudioInternal_eq split: if_splits\<close>)

lemma disarmed_playAudio:
  assumes "disarmed s h" "h < nextInstanceHandle s"
  shows "disarmed (snd (playAudio sh bh vol pan pit lp del spat px py mind maxd cb s)) h"
  by (rule disarmed_mono[OF assms(1)])
     (use assms(2) in \<open>auto simp: playAudio_cases playAudioInternal_eq split: option.splits if_splits\<close>)

lemma disarmed_sweep:
  assumes "disarmed s h" "h \<notin> p_handle ` set ps"
  shows "disarmed (snd (sweepPending ps st s)) h"
  using assms
proof (induction ps arbitrary: st s)
  case Nil then show ?case by simp
next
  case (Cons p rest)
  have ne: "p_handle p \<noteq> h" "h \<notin> p_handle ` set rest" using Cons.prems(2) by auto
  show ?case
  proof (cases "sources s (p_sourceHandle p)")
    case (Some src)
    from Cons.IH[OF disarmed_playInternal[OF Cons.prems(1) ne(1)] ne(2)] Some
    show ?thesis by simp
  next
    case None
    from Cons.IH[OF Cons.prems(1) ne(2)] None show ?thesis by (simp add: Let_def)
  qed
qed

lemma disarmed_timeoutFired:
  assumes "disarmed s h" "h \<notin> p_handle ` set (pendingPlays s)"
  shows "disarmed (timeoutFired s) h"
proof (cases "timeouts s = 0")
  case True then show ?thesis using assms by (simp add: timeoutFired_def)
next
  case False
  let ?s0 = "s\<lparr>timeouts := timeouts s - 1\<rparr>"
  have d0: "disarmed ?s0 h" using assms(1) by (simp add: disarmed_def)
  note a = disarmed_sweep[OF d0 assms(2), of "[]"]
  show ?thesis unfolding timeoutFired_eq[OF False]
    by (rule disarmed_mono[OF a]) (auto simp: Let_def split: if_splits)
qed

lemma disarmed_step:
  assumes "retired s h" "disarmed s h"
  shows "disarmed (step e s) h"
proof -
  have r: "h < nextInstanceHandle s" "map_of (instances s) h = None"
    "h \<notin> p_handle ` set (pendingPlays s)"
    using assms(1) by (simp_all add: retired_def)
  note d = assms(2)
  show ?thesis
    by (cases e)
      (simp_all add: d r disarmed_pause disarmed_resume disarmed_stop disarmed_stopAll
        disarmed_nodeEnded disarmed_playAudio disarmed_timeoutFired
        disarmed_frame[OF instCoreEq_sources(1)] disarmed_frame[OF instCoreEq_sources(2)]
        disarmed_frame[OF instCoreEq_sources(3)] disarmed_frame[OF instCoreEq_sources(4)]
        disarmed_frame[OF coreEq_inst[OF coreEq_simple(1)]]
        disarmed_frame[OF coreEq_inst[OF coreEq_simple(2)]]
        disarmed_frame[OF coreEq_inst[OF coreEq_simple(3)]]
        disarmed_frame[OF coreEq_inst[OF coreEq_simple(4)]]
        disarmed_frame[OF coreEq_inst[OF coreEq_simple(5)]]
        disarmed_frame[OF coreEq_inst[OF coreEq_simple(6)]]
        disarmed_frame[OF coreEq_inst[OF coreEq_simple(7)]]
        disarmed_frame[OF coreEq_inst[OF coreEq_simple(8)]]
        disarmed_frame[OF coreEq_inst[OF coreEq_simple(9)]]
        disarmed_frame[OF coreEq_inst[OF coreEq_simple(10)]]
        disarmed_frame[OF coreEq_inst[OF coreEq_simple(11)]]
        disarmed_frame[OF coreEq_inst[OF coreEq_simple(12)]])
qed

lemma disarmed_run:
  assumes "retired s h" "disarmed s h"
  shows "disarmed (run es s) h"
  using assms
proof (induction es arbitrary: s)
  case Nil then show ?case by (simp add: run_def)
next
  case (Cons e es)
  have "disarmed (run es (step e s)) h"
    by (rule Cons.IH[OF retired_step[OF Cons.prems(1)] disarmed_step[OF Cons.prems]])
  then show ?case by (simp add: run_def)
qed

lemma stopAudio_disarms:
  assumes ci: "closuresInv s" and tb: "map_of (instances s) h = Some r"
  shows "stopped (objs (stopAudio h s) r)" "disarmed (stopAudio h s) h"
proof -
  show st: "stopped (objs (stopAudio h s) r)" by (simp add: stopAudio_eq[OF tb])
  have hk: "n_onended (sourceNodes (stopAudio h s) n) = n_onended (sourceNodes s n)" for n
    by (simp add: stopAudio_eq[OF tb])
  have nx: "nextObj (stopAudio h s) = nextObj s" by (simp add: stopAudio_eq[OF tb])
  show "disarmed (stopAudio h s) h"
    unfolding disarmed_def
  proof (intro allI impI)
    fix n r' assume "n_onended (sourceNodes (stopAudio h s) n) = Some (r', h)"
    then have a: "n_onended (sourceNodes s n) = Some (r', h)" by (simp add: hk)
    have "r = r'" by (rule ciD(9)[OF ci a tb])
    then show "r' < nextObj (stopAudio h s) \<and> stopped (objs (stopAudio h s) r')"
      using st ciD(6)[OF ci a] by (simp add: nx)
  qed
qed

lemma stopAll_fields:
  "n_onended (sourceNodes (fold (stopAllBody bh) es t) n) = n_onended (sourceNodes t n)"
  "nextObj (fold (stopAllBody bh) es t) = nextObj t"
  "nextInstanceHandle (fold (stopAllBody bh) es t) = nextInstanceHandle t"
proof -
  have b: "n_onended (sourceNodes (stopAllBody bh e u) n) = n_onended (sourceNodes u n)
      \<and> nextObj (stopAllBody bh e u) = nextObj u
      \<and> nextInstanceHandle (stopAllBody bh e u) = nextInstanceHandle u" for e u
  proof -
    obtain k r where e: "e = (k, r)" by (cases e)
    show ?thesis
      by (cases "stopped (objs u r)")
         (simp_all add: stopAllBody_def e Let_def stopInstance_stopped stopInstance_eq)
  qed
  have "n_onended (sourceNodes (fold (stopAllBody bh) es t) n) = n_onended (sourceNodes t n)
      \<and> nextObj (fold (stopAllBody bh) es t) = nextObj t
      \<and> nextInstanceHandle (fold (stopAllBody bh) es t) = nextInstanceHandle t"
    by (induction es arbitrary: t) (simp_all add: b)
  then show "n_onended (sourceNodes (fold (stopAllBody bh) es t) n) = n_onended (sourceNodes t n)"
    "nextObj (fold (stopAllBody bh) es t) = nextObj t"
    "nextInstanceHandle (fold (stopAllBody bh) es t) = nextInstanceHandle t" by simp_all
qed

lemma stopAll_stops:
  assumes "(h, r) \<in> set es" "bh = 0 \<or> busHandle (objs t r) = bh"
  shows "stopped (objs (fold (stopAllBody bh) es t) r)"
proof -
  have body: "busHandle (objs (stopAllBody bh e t) r) = busHandle (objs t r)
      \<and> (stopped (objs t r) \<longrightarrow> stopped (objs (stopAllBody bh e t) r))" for e t
  proof -
    obtain k r' where e: "e = (k, r')" by (cases e)
    show ?thesis
      by (cases "stopped (objs t r')")
         (simp_all add: stopAllBody_def e Let_def stopInstance_stopped stopInstance_eq)
  qed
  have keep: "stopped (objs (fold (stopAllBody bh) es t) r)" if "stopped (objs t r)" for es t
    using that by (induction es arbitrary: t) (simp_all add: body)
  show ?thesis using assms
  proof (induction es arbitrary: t)
    case Nil then show ?case by simp
  next
    case (Cons e es)
    show ?case
    proof (cases "e = (h, r)")
      case True
      have "stopped (objs (stopAllBody bh e t) r)"
        using Cons.prems(2)
        by (cases "stopped (objs t r)")
           (auto simp: stopAllBody_def True Let_def stopInstance_stopped stopInstance_eq)
      from keep[OF this] show ?thesis by simp
    next
      case False
      then have "(h, r) \<in> set es" using Cons.prems(1) by simp
      moreover have "bh = 0 \<or> busHandle (objs (stopAllBody bh e t) r) = bh"
        using Cons.prems(2) by (simp add: body)
      ultimately show ?thesis using Cons.IH by simp
    qed
  qed
qed

lemma stopAllAudio_disarms:
  assumes wf: "wellFormed s" and ci: "closuresInv s" and tb: "map_of (instances s) h = Some r"
    and bus: "bh = 0 \<or> busHandle (objs s r) = bh"
  shows "stopped (objs (stopAllAudio bh s) r)" "disarmed (stopAllAudio bh s) h"
    "retired (stopAllAudio bh s) h"
proof -
  show st: "stopped (objs (stopAllAudio bh s) r)"
    unfolding stopAllAudio_def by (rule stopAll_stops[OF map_of_SomeD[OF tb] bus])
  show "disarmed (stopAllAudio bh s) h"
    unfolding disarmed_def
  proof (intro allI impI)
    fix n r' assume "n_onended (sourceNodes (stopAllAudio bh s) n) = Some (r', h)"
    then have a: "n_onended (sourceNodes s n) = Some (r', h)"
      by (simp add: stopAllAudio_def stopAll_fields)
    have "r = r'" by (rule ciD(9)[OF ci a tb])
    then show "r' < nextObj (stopAllAudio bh s) \<and> stopped (objs (stopAllAudio bh s) r')"
      using st ciD(6)[OF ci a] by (simp add: stopAllAudio_def stopAll_fields)
  qed
  have "nextInstanceHandle (stopAllAudio bh s) = nextInstanceHandle s"
    by (simp add: stopAllAudio_def stopAll_fields)
  then show "retired (stopAllAudio bh s) h"
    using table_handle_not_pending[OF wf tb] stopAllAudio_removes[OF tb bus]
    by (simp add: retired_def)
qed

lemma natural_end:
  assumes wf: "wellFormed s" and ci: "closuresInv s"
    and tb: "map_of (instances s) h = Some r"
    and np: "\<not> paused (objs s r)" "\<not> stopped (objs s r)" and nl: "\<not> loop (objs s r)"
  shows "canEnd s (sourceNode (objs s r))"
    "finishedCallbacks (step (NodeEnded (sourceNode (objs s r))) s)
       = (if hasCallback (objs s r) then finishedCallbacks s @ [h] else finishedCallbacks s)"
    "retired (step (NodeEnded (sourceNode (objs s r))) s) h"
proof -
  let ?n = "sourceNode (objs s r)"
  have cf: "canFire s ?n" by (rule ciD(5)[OF ci tb np])
  show ce: "canEnd s ?n"
    using cf ciD(2)[OF ci tb] ciD(4)[OF ci tb] nl by (simp add: canEnd_def canFire_def Let_def)
  have hk: "n_onended (sourceNodes s ?n) = Some (r, h)" by (rule ciD(3)[OF ci tb])
  have eq: "step (NodeEnded ?n) s =
      s\<lparr>sourceNodes := (sourceNodes s)(?n := (sourceNodes s ?n)\<lparr>n_ended := True\<rparr>),
        finishedCallbacks := (if hasCallback (objs s r)
                            then finishedCallbacks s @ [h] else finishedCallbacks s),
        instances := AList.delete h (instances s)\<rparr>"
    using ce hk np nl by (simp add: nodeEnded_eq)
  show "finishedCallbacks (step (NodeEnded ?n) s)
       = (if hasCallback (objs s r) then finishedCallbacks s @ [h] else finishedCallbacks s)"
    unfolding eq by simp
  show "retired (step (NodeEnded ?n) s) h"
    unfolding eq using table_handle_not_pending[OF wf tb] by (simp add: retired_def delete_conv')
qed

lemma stop_silences:
  assumes "retired t h" "disarmed t h"
    "n_onended (sourceNodes (run es' t) n) = Some (r', h)"
  shows "stopped (objs (run es' t) r')" "onended r' h (run es' t) = run es' t"
proof -
  show "stopped (objs (run es' t) r')"
    by (rule disarmedD(2)[OF disarmed_run[OF assms(1,2)] assms(3)])
  then show "onended r' h (run es' t) = run es' t" by (simp add: onended_def)
qed

lemma stopped_sample_hook:
  "n_onended (sourceNodes (run [ClockAdvanced 5] (stopAudio 1 playing)) 2) = Some (0, 1)"
proof -
  have t: "map_of (instances playing) 1 = Some 0" by (rule playing_facts(1))
  have "n_onended (sourceNodes (stopAudio 1 playing) 2) = Some (0, 1)"
    unfolding stopAudio_eq[OF t] by (simp add: playing_facts playing_node)
  then show ?thesis by (simp add: run_def clockAdvanced_def)
qed

section \<open>The claims\<close>

subsection \<open>Pause and resume\<close>

text \<open>
  C1. An instance that is playing is paused and, after any time \<open>dt\<close> (none, for an
  immediate resume), resumed. The pause stores the elapsed time as pause offset and stops
  the source node; the query after the resume returns what it returned before the pause.
  When the source is still registered the resume builds a new source node on the same
  buffer, connects it through the instance's panner (if any) to its gain node, sets the
  start time to the clock minus the pause offset and starts the node at that offset into
  the buffer, with the completion hook installed again.
\<close>

theorem pause_resume_round_trip:
  assumes "map_of (instances s) h = Some r" "\<not> paused (objs s r)" "\<not> stopped (objs s r)"
    and "0 \<le> dt"
  defines "s1 \<equiv> pauseAudio h s"
  defines "s2 \<equiv> clockAdvanced dt s1"
  defines "s3 \<equiv> resumeAudio h s2"
  shows "isAudioPaused s1 h
       \<and> pauseTime (objs s1 r) = currentTime s - startTime (objs s r)
       \<and> n_stopCalled (sourceNodes s1 (sourceNode (objs s r)))
       \<and> getAudioTime s3 h = getAudioTime s h
       \<and> (\<forall>src. sources s (sourceHandle (objs s r)) = Some src \<longrightarrow>
             isAudioPlaying s3 h
           \<and> startTime (objs s3 r) = currentTime s2 - pauseTime (objs s1 r)
           \<and> sourceNode (objs s3 r) = nextNode s
           \<and> nodeKind s3 (nextNode s) = Some BufferSource
           \<and> n_buffer (sourceNodes s3 (nextNode s)) = Some (buffer src)
           \<and> n_started (sourceNodes s3 (nextNode s)) = Some (0, pauseTime (objs s1 r))
           \<and> n_onended (sourceNodes s3 (nextNode s)) = Some (r, h)
           \<and> connections s3 = connections s @ resumeChain (objs s r) (nextNode s))"
proof -
  let ?i = "objs s r"
  have s2: "s2 = s\<lparr>objs := (objs s)(r := ?i\<lparr>paused := True,
                   pauseTime := currentTime s - startTime ?i\<rparr>),
       sourceNodes := (sourceNodes s)(sourceNode ?i :=
                   (sourceNodes s (sourceNode ?i))\<lparr>n_stopCalled := True\<rparr>),
       currentTime := currentTime s + dt\<rparr>"
    using assms(1-4) by (simp add: s2_def s1_def pauseAudio_eq clockAdvanced_def)
  have look2: "map_of (instances s2) h = Some r" "paused (objs s2 r)" "\<not> stopped (objs s2 r)"
    "sourceHandle (objs s2 r) = sourceHandle ?i" "sources s2 = sources s"
    using assms(1-3) by (simp_all add: s2)
  have p1: "isAudioPaused s1 h
       \<and> pauseTime (objs s1 r) = currentTime s - startTime (objs s r)
       \<and> n_stopCalled (sourceNodes s1 (sourceNode (objs s r)))"
    using assms(1-3) by (simp add: s1_def pauseAudio_eq isAudioPaused_def)
  have t: "getAudioTime s3 h = getAudioTime s h"
  proof (cases "sources s (sourceHandle ?i)")
    case None
    then have "s3 = s2" using look2 by (simp add: s3_def resumeAudio_absent)
    then show ?thesis using assms(1-3) None by (simp add: getAudioTime_def s2)
  next
    case (Some src)
    then have "sources s2 (sourceHandle (objs s2 r)) = Some src" using look2 by simp
    from resumeAudio_eq[OF look2(1-3) this]
    show ?thesis using assms(1-3) Some by (simp add: s3_def getAudioTime_def s2 Let_def)
  qed
  have r: "isAudioPlaying s3 h
           \<and> startTime (objs s3 r) = currentTime s2 - pauseTime (objs s1 r)
           \<and> sourceNode (objs s3 r) = nextNode s
           \<and> nodeKind s3 (nextNode s) = Some BufferSource
           \<and> n_buffer (sourceNodes s3 (nextNode s)) = Some (buffer src)
           \<and> n_started (sourceNodes s3 (nextNode s)) = Some (0, pauseTime (objs s1 r))
           \<and> n_onended (sourceNodes s3 (nextNode s)) = Some (r, h)
           \<and> connections s3 = connections s @ resumeChain (objs s r) (nextNode s)"
    if src: "sources s (sourceHandle ?i) = Some src" for src
  proof -
    have "sources s2 (sourceHandle (objs s2 r)) = Some src" using look2 src by simp
    from resumeAudio_eq[OF look2(1-3) this]
    show ?thesis using assms(1-3) p1
      by (simp add: s3_def isAudioPlaying_def s2)
  qed
  show ?thesis using p1 t r by blast
qed

text \<open>The sample instance, paused after a second and a half and resumed three seconds
  later, reports a second and a half.\<close>

theorem pause_resume_round_trip_witness:
  "map_of (instances (clockAdvanced (3 / 2) playing)) 1 = Some 0
   \<and> \<not> paused (objs (clockAdvanced (3 / 2) playing) 0)
   \<and> \<not> stopped (objs (clockAdvanced (3 / 2) playing) 0)
   \<and> getAudioTime (clockAdvanced (3 / 2) playing) 1 = Number (3 / 2)
   \<and> getAudioTime (resumeAudio 1 (clockAdvanced 3
         (pauseAudio 1 (clockAdvanced (3 / 2) playing)))) 1 = Number (3 / 2)"
proof -
  let ?s = "clockAdvanced (3 / 2) playing"
  have a: "map_of (instances ?s) 1 = Some 0" "\<not> paused (objs ?s 0)" "\<not> stopped (objs ?s 0)"
    using playing_facts by (simp_all add: clockAdvanced_def)
  have b: "getAudioTime ?s 1 = Number (3 / 2)"
    using playing_facts by (simp add: clockAdvanced_def getAudioTime_def)
  have c: "(0::real) \<le> 3" by simp
  show ?thesis using pause_resume_round_trip[OF a c] a b by simp
qed

subsection \<open>The finished-event channel\<close>

text \<open>
  C2. In every state \<open>s\<close> that a run of the engine reaches:

  \<^item> An event changes the finished-event queue in one of two ways only: the poll removes
  its head, or a source node reaches the end of its buffer (the host's \<open>ended\<close>
  notification, which the host gives for a started node that was not stopped and does not
  loop) and the hook of that node appends the handle \<open>h\<close> of its instance. In that case
  the instance is in the table and playing on that node, does not loop and has its
  callback flag set; the handle is appended once and the entry leaves the table.

  \<^item> Conversely, the current source node of every instance that is playing and does not
  loop can reach the end of its buffer, and when it does its hook removes the entry and
  appends the handle if the callback flag is set, and appends nothing if it is not.

  \<^item> The callback flag of a table entry is never changed by any event, so it is the flag
  the instance was created with.

  \<^item> An explicit stop (\<open>stop\<close> of the instance, \<open>stop_all\<close> for every bus or for its bus)
  appends nothing, removes the entry and marks the instance object stopped. From then on,
  through every later run, every completion hook that carries the handle, on whichever
  node it sits, captured an object that is marked stopped, so the hook changes nothing
  whenever it runs.

  \<^item> A handle that has left the table (after its natural end or after an explicit stop)
  stays out of it through every later run and is never appended again.

  \<^item> The hook does nothing for an instance that loops or is marked stopped, whatever its
  callback flag.
\<close>

theorem finished_only_on_natural_end:
  fixes es :: "event list"
  defines "s \<equiv> run es init_engine"
  shows
   "(finishedCallbacks (step e s) = finishedCallbacks s
      \<or> (e = PollFinished \<and> finishedCallbacks (step e s) = tl (finishedCallbacks s))
      \<or> (\<exists>n r h. e = NodeEnded n \<and> canEnd s n \<and> n_onended (sourceNodes s n) = Some (r, h)
           \<and> map_of (instances s) h = Some r \<and> sourceNode (objs s r) = n \<and> isAudioPlaying s h
           \<and> \<not> loop (objs s r) \<and> hasCallback (objs s r)
           \<and> finishedCallbacks (step e s) = finishedCallbacks s @ [h] \<and> retired (step e s) h))
    \<and> (\<forall>h r. map_of (instances s) h = Some r \<and> \<not> paused (objs s r) \<and> \<not> stopped (objs s r)
            \<and> \<not> loop (objs s r) \<longrightarrow>
          canEnd s (sourceNode (objs s r))
          \<and> finishedCallbacks (step (NodeEnded (sourceNode (objs s r))) s)
              = (if hasCallback (objs s r) then finishedCallbacks s @ [h]
                 else finishedCallbacks s)
          \<and> retired (step (NodeEnded (sourceNode (objs s r))) s) h)
    \<and> (\<forall>h r. map_of (instances s) h = Some r \<longrightarrow>
          hasCallback (objs (step e s) r) = hasCallback (objs s r))
    \<and> (\<forall>h r. map_of (instances s) h = Some r \<longrightarrow>
          retired (stopAudio h s) h \<and> finishedCallbacks (stopAudio h s) = finishedCallbacks s
          \<and> stopped (objs (stopAudio h s) r)
          \<and> (\<forall>es' n r'. n_onended (sourceNodes (run es' (stopAudio h s)) n) = Some (r', h) \<longrightarrow>
                stopped (objs (run es' (stopAudio h s)) r')
                \<and> onended r' h (run es' (stopAudio h s)) = run es' (stopAudio h s)))
    \<and> (\<forall>h r bh. map_of (instances s) h = Some r \<and> (bh = 0 \<or> busHandle (objs s r) = bh) \<longrightarrow>
          retired (stopAllAudio bh s) h
          \<and> finishedCallbacks (stopAllAudio bh s) = finishedCallbacks s
          \<and> stopped (objs (stopAllAudio bh s) r)
          \<and> (\<forall>es' n r'. n_onended (sourceNodes (run es' (stopAllAudio bh s)) n) = Some (r', h) \<longrightarrow>
                stopped (objs (run es' (stopAllAudio bh s)) r')
                \<and> onended r' h (run es' (stopAllAudio bh s)) = run es' (stopAllAudio bh s)))
    \<and> (\<forall>h. retired s h \<longrightarrow>
          (\<forall>es' e'. retired (run es' s) h
             \<and> finishedCallbacks (step e' (run es' s)) \<noteq> finishedCallbacks (run es' s) @ [h]))
    \<and> (\<forall>r h t. loop (objs t r) \<or> stopped (objs t r) \<longrightarrow> onended r h t = t)"
proof -
  have wf: "wellFormed s" unfolding s_def by (rule wf_reachable)
  have ci: "closuresInv s" unfolding s_def by (rule ci_reachable)
  have A: "finishedCallbacks (step e s) = finishedCallbacks s
      \<or> (e = PollFinished \<and> finishedCallbacks (step e s) = tl (finishedCallbacks s))
      \<or> (\<exists>n r h. e = NodeEnded n \<and> canEnd s n \<and> n_onended (sourceNodes s n) = Some (r, h)
           \<and> map_of (instances s) h = Some r \<and> sourceNode (objs s r) = n \<and> isAudioPlaying s h
           \<and> \<not> loop (objs s r) \<and> hasCallback (objs s r)
           \<and> finishedCallbacks (step e s) = finishedCallbacks s @ [h] \<and> retired (step e s) h)"
  proof -
    consider (same) "finishedCallbacks (step e s) = finishedCallbacks s"
      | (poll) "e = PollFinished" "finishedCallbacks (step e s) = tl (finishedCallbacks s)"
      | (push) n r h where "e = NodeEnded n" "canEnd s n" "n_onended (sourceNodes s n) = Some (r, h)"
          "\<not> stopped (objs s r)" "\<not> loop (objs s r)" "hasCallback (objs s r)"
          "finishedCallbacks (step e s) = finishedCallbacks s @ [h]"
          "map_of (instances (step e s)) h = None"
      using fc_step[of e s] by blast
    then show ?thesis
    proof cases
      case same then show ?thesis by simp
    next
      case poll then show ?thesis by simp
    next
      case (push n r h)
      note d = hooksD[OF wfD(1)[OF wf] canEnd_canFire[OF push(2)] push(3)]
      have pl: "isAudioPlaying s h" using d by (simp add: isAudioPlaying_def)
      note t = table_handle_not_pending[OF wf d(1)]
      have "nextInstanceHandle (step e s) = nextInstanceHandle s"
           "pendingPlays (step e s) = pendingPlays s"
        unfolding push(1) step.simps nodeEnded_eq by (simp_all split: option.splits)
      then have "retired (step e s) h" using t push(8) by (simp add: retired_def)
      then show ?thesis using push d pl by blast
    qed
  qed
  have P: "canEnd s (sourceNode (objs s r))
          \<and> finishedCallbacks (step (NodeEnded (sourceNode (objs s r))) s)
              = (if hasCallback (objs s r) then finishedCallbacks s @ [h]
                 else finishedCallbacks s)
          \<and> retired (step (NodeEnded (sourceNode (objs s r))) s) h"
    if "map_of (instances s) h = Some r \<and> \<not> paused (objs s r) \<and> \<not> stopped (objs s r)
            \<and> \<not> loop (objs s r)" for h r
    using natural_end[OF wf ci, of h r] that by blast
  have H: "hasCallback (objs (step e s) r) = hasCallback (objs s r)"
    if "map_of (instances s) h = Some r" for h r
    by (rule hasCallback_step[OF handlesD(4)[OF wfD(2)[OF wf] that]])
  have B: "retired (stopAudio h s) h \<and> finishedCallbacks (stopAudio h s) = finishedCallbacks s
          \<and> stopped (objs (stopAudio h s) r)
          \<and> (\<forall>es' n r'. n_onended (sourceNodes (run es' (stopAudio h s)) n) = Some (r', h) \<longrightarrow>
                stopped (objs (run es' (stopAudio h s)) r')
                \<and> onended r' h (run es' (stopAudio h s)) = run es' (stopAudio h s))"
    if tb: "map_of (instances s) h = Some r" for h r
  proof -
    note r = retired_stop[OF wf tb]
    note d = stopAudio_disarms[OF ci tb]
    have "stopped (objs (run es' (stopAudio h s)) r')
                \<and> onended r' h (run es' (stopAudio h s)) = run es' (stopAudio h s)"
      if "n_onended (sourceNodes (run es' (stopAudio h s)) n) = Some (r', h)" for es' n r'
      using stop_silences[OF r d(2) that] by simp
    then show ?thesis using r d(1) by simp
  qed
  have B2: "retired (stopAllAudio bh s) h
          \<and> finishedCallbacks (stopAllAudio bh s) = finishedCallbacks s
          \<and> stopped (objs (stopAllAudio bh s) r)
          \<and> (\<forall>es' n r'. n_onended (sourceNodes (run es' (stopAllAudio bh s)) n) = Some (r', h) \<longrightarrow>
                stopped (objs (run es' (stopAllAudio bh s)) r')
                \<and> onended r' h (run es' (stopAllAudio bh s)) = run es' (stopAllAudio bh s))"
    if "map_of (instances s) h = Some r \<and> (bh = 0 \<or> busHandle (objs s r) = bh)" for h r bh
  proof -
    have tb: "map_of (instances s) h = Some r" and bus: "bh = 0 \<or> busHandle (objs s r) = bh"
      using that by simp_all
    note d = stopAllAudio_disarms[OF wf ci tb bus]
    have "stopped (objs (run es' (stopAllAudio bh s)) r')
                \<and> onended r' h (run es' (stopAllAudio bh s)) = run es' (stopAllAudio bh s)"
      if "n_onended (sourceNodes (run es' (stopAllAudio bh s)) n) = Some (r', h)" for es' n r'
      using stop_silences[OF d(3) d(2) that] by simp
    then show ?thesis using d(1,3) by simp
  qed
  have C: "retired (run es' s) h
             \<and> finishedCallbacks (step e' (run es' s)) \<noteq> finishedCallbacks (run es' s) @ [h]"
    if "retired s h" for h es' e'
    using retired_never_pushed[OF wf that] .
  have G: "\<forall>r h t. loop (objs t r) \<or> stopped (objs t r) \<longrightarrow> onended r h t = t"
    by (intro allI impI) (rule onended_guard)
  have P': "\<forall>h r. map_of (instances s) h = Some r \<and> \<not> paused (objs s r) \<and> \<not> stopped (objs s r)
            \<and> \<not> loop (objs s r) \<longrightarrow>
          canEnd s (sourceNode (objs s r))
          \<and> finishedCallbacks (step (NodeEnded (sourceNode (objs s r))) s)
              = (if hasCallback (objs s r) then finishedCallbacks s @ [h]
                 else finishedCallbacks s)
          \<and> retired (step (NodeEnded (sourceNode (objs s r))) s) h"
    by (intro allI impI) (rule P)
  have H': "\<forall>h r. map_of (instances s) h = Some r \<longrightarrow>
          hasCallback (objs (step e s) r) = hasCallback (objs s r)"
    by (intro allI impI) (rule H)
  have B': "\<forall>h r. map_of (instances s) h = Some r \<longrightarrow>
          retired (stopAudio h s) h \<and> finishedCallbacks (stopAudio h s) = finishedCallbacks s
          \<and> stopped (objs (stopAudio h s) r)
          \<and> (\<forall>es' n r'. n_onended (sourceNodes (run es' (stopAudio h s)) n) = Some (r', h) \<longrightarrow>
                stopped (objs (run es' (stopAudio h s)) r')
                \<and> onended r' h (run es' (stopAudio h s)) = run es' (stopAudio h s))"
    by (intro allI impI) (rule B)
  have B2': "\<forall>h r bh. map_of (instances s) h = Some r \<and> (bh = 0 \<or> busHandle (objs s r) = bh) \<longrightarrow>
          retired (stopAllAudio bh s) h
          \<and> finishedCallbacks (stopAllAudio bh s) = finishedCallbacks s
          \<and> stopped (objs (stopAllAudio bh s) r)
          \<and> (\<forall>es' n r'. n_onended (sourceNodes (run es' (stopAllAudio bh s)) n) = Some (r', h) \<longrightarrow>
                stopped (objs (run es' (stopAllAudio bh s)) r')
                \<and> onended r' h (run es' (stopAllAudio bh s)) = run es' (stopAllAudio bh s))"
    by (intro allI impI) (rule B2)
  have C': "\<forall>h. retired s h \<longrightarrow>
          (\<forall>es' e'. retired (run es' s) h
             \<and> finishedCallbacks (step e' (run es' s)) \<noteq> finishedCallbacks (run es' s) @ [h])"
    by (intro allI impI) (rule C)
  show ?thesis
    by (rule conjI[OF A conjI[OF P' conjI[OF H' conjI[OF B' conjI[OF B2' conjI[OF C' G]]]]]])
qed

text \<open>The sample instance is playing on node 2, does not loop and has its callback flag
  set, and keeps the flag when it is made to loop. Node 2 can reach its end, and then the
  handle 1 is appended and retired. An explicit stop, or a stop-all, appends nothing and
  marks the object stopped; five seconds later the hook is still on node 2 and running it
  changes nothing, and no later end of the node appends the handle.\<close>

theorem finished_only_on_natural_end_witness:
  "map_of (instances playing) 1 = Some 0
   \<and> \<not> paused (objs playing 0) \<and> \<not> stopped (objs playing 0) \<and> \<not> loop (objs playing 0)
   \<and> hasCallback (objs playing 0) \<and> sourceNode (objs playing 0) = 2
   \<and> canEnd playing 2
   \<and> finishedCallbacks (step (NodeEnded 2) playing) = finishedCallbacks playing @ [1]
   \<and> retired (step (NodeEnded 2) playing) 1
   \<and> hasCallback (objs (step (SetLooping 1 True) playing) 0)
   \<and> retired (stopAudio 1 playing) 1
   \<and> finishedCallbacks (stopAudio 1 playing) = finishedCallbacks playing
   \<and> stopped (objs (stopAudio 1 playing) 0)
   \<and> n_onended (sourceNodes (run [ClockAdvanced 5] (stopAudio 1 playing)) 2) = Some (0, 1)
   \<and> onended 0 1 (run [ClockAdvanced 5] (stopAudio 1 playing))
        = run [ClockAdvanced 5] (stopAudio 1 playing)
   \<and> retired (stopAllAudio 0 playing) 1
   \<and> stopped (objs (stopAllAudio 0 playing) 0)
   \<and> retired (run [ClockAdvanced 5] (stopAudio 1 playing)) 1
   \<and> finishedCallbacks (step (NodeEnded 2) (run [ClockAdvanced 5] (stopAudio 1 playing)))
        \<noteq> finishedCallbacks (run [ClockAdvanced 5] (stopAudio 1 playing)) @ [1]
   \<and> onended 0 1 (stopAudio 1 playing) = stopAudio 1 playing"
proof -
  note a = finished_only_on_natural_end[where
      es = "[Load, DecodeResolved 1 0 2, Play 1 1 1 0 1 False 0 False 0 0 0 0 True]"
      and e = "SetLooping 1 True", unfolded playing_run]
  note b = finished_only_on_natural_end[where
      es = "[Load, DecodeResolved 1 0 2, Play 1 1 1 0 1 False 0 False 0 0 0 0 True, Stop 1]"
      and e = "ClockAdvanced 5", unfolded playing_run]
  have t: "map_of (instances playing) 1 = Some 0" by (rule playing_facts(1))
  note f = playing_facts(7,8,9,12,13)
  have p: "map_of (instances playing) 1 = Some 0 \<and> \<not> paused (objs playing 0)
      \<and> \<not> stopped (objs playing 0) \<and> \<not> loop (objs playing 0)"
    using t f by simp
  note c2 = conjunct2
  note aP = a[THEN c2, THEN conjunct1, rule_format, OF p]
  note aH = a[THEN c2, THEN c2, THEN conjunct1, rule_format, OF t]
  note aB = a[THEN c2, THEN c2, THEN c2, THEN conjunct1, rule_format, OF t]
  note aBh = aB[THEN c2, THEN c2, THEN c2, rule_format, OF stopped_sample_hook]
  have tb: "map_of (instances playing) 1 = Some 0 \<and> ((0::nat) = 0 \<or> busHandle (objs playing 0) = 0)"
    using t by simp
  note aB2 = a[THEN c2, THEN c2, THEN c2, THEN c2, THEN conjunct1, rule_format, OF tb]
  note bC = b[THEN c2, THEN c2, THEN c2, THEN c2, THEN c2, THEN conjunct1, rule_format,
      OF aB[THEN conjunct1], of "[ClockAdvanced 5]" "NodeEnded 2"]
  have st: "loop (objs (stopAudio 1 playing) 0) \<or> stopped (objs (stopAudio 1 playing) 0)"
    using aB by simp
  note bG = b[THEN c2, THEN c2, THEN c2, THEN c2, THEN c2, THEN c2, rule_format, OF st, of 1]
  have 1: "canEnd playing 2
      \<and> finishedCallbacks (step (NodeEnded 2) playing) = finishedCallbacks playing @ [1]
      \<and> retired (step (NodeEnded 2) playing) 1"
    using aP unfolding f(5) by (simp add: f(4))
  have 2: "hasCallback (objs (step (SetLooping 1 True) playing) 0)"
    using aH f(4) by simp
  have 3: "retired (stopAudio 1 playing) 1
      \<and> finishedCallbacks (stopAudio 1 playing) = finishedCallbacks playing
      \<and> stopped (objs (stopAudio 1 playing) 0)"
    using aB by simp
  have 4: "retired (stopAllAudio 0 playing) 1 \<and> stopped (objs (stopAllAudio 0 playing) 0)"
    using aB2 by simp
  show ?thesis using t f 1 2 3 aBh 4 bC bG stopped_sample_hook by simp
qed

subsection \<open>Deferred plays\<close>

text \<open>
  C3. In a state reached by a run of the engine, \<open>play\<close> on a source handle that is not
  registered returns at once the next instance handle, which is not 0 and is neither in the
  instance table nor in the deferred queue, and appends to the queue a snapshot of all the
  parameters with the retry counter 0; no instance is created. Through every later run
  in which the source is not decoded, the request is in the queue with one retry counted
  for each sweep as long as there have been fewer than ten sweeps, and no instance has its
  handle; from the tenth sweep on the handle is in neither the queue nor the table, stays
  so through every further run, and is never appended to the finished-event queue. When
  the source is registered at a sweep, that sweep turns the parked request into a playing
  instance built from the snapshot and takes it off the queue; the instance is the one an
  immediate \<open>play\<close> with the same parameters builds when the source is registered.
\<close>

theorem deferred_play:
  fixes es0 :: "event list" and sh bh :: nat and vol pan pit del px py mind maxd :: real
    and lp spat cb :: bool
  defines "s \<equiv> run es0 init_engine"
  defines "h \<equiv> nextInstanceHandle s"
  defines "snap \<equiv> \<lparr>p_handle = h, p_sourceHandle = sh, p_busHandle = bh,
                  p_volume = vol, p_pan = pan, p_pitch = pit, p_loop = lp, p_delay = del,
                  p_isSpatial = spat, p_posX = px, p_posY = py, p_minDistance = mind,
                  p_maxDistance = maxd, p_hasCallback = cb, p_retries = 0\<rparr>"
  defines "s1 \<equiv> snd (playAudio sh bh vol pan pit lp del spat px py mind maxd cb s)"
  assumes unresolved: "sources s sh = None"
  shows "fst (playAudio sh bh vol pan pit lp del spat px py mind maxd cb s) = h
       \<and> 0 < h \<and> map_of (instances s) h = None \<and> h \<notin> p_handle ` set (pendingPlays s)
       \<and> pendingPlays s1 = pendingPlays s @ [snap] \<and> instances s1 = instances s
       \<and> objs s1 = objs s
       \<and> (\<forall>es. (\<forall>e \<in> set es. \<forall>b d. e \<noteq> DecodeResolved sh b d) \<longrightarrow>
             (count_list es TimeoutFired < 10 \<longrightarrow>
                parked (run es s1) snap (count_list es TimeoutFired)
              \<and> map_of (instances (run es s1)) h = None)
           \<and> (10 \<le> count_list es TimeoutFired \<longrightarrow>
                retired (run es s1) h
              \<and> (\<forall>es' e'. retired (run es' (run es s1)) h
                    \<and> finishedCallbacks (step e' (run es' (run es s1)))
                        \<noteq> finishedCallbacks (run es' (run es s1)) @ [h])))
       \<and> (\<forall>es k src. parked (run es s1) snap k \<and> sources (run es s1) sh = Some src \<longrightarrow>
             promoted (timeoutFired (run es s1)) (snap\<lparr>p_retries := k\<rparr>)
           \<and> isAudioPlaying (timeoutFired (run es s1)) h
           \<and> h \<notin> p_handle ` set (pendingPlays (timeoutFired (run es s1))))
       \<and> (\<forall>t src. initialized t \<and> sources t sh = Some src \<longrightarrow>
             promoted (snd (playAudio sh bh vol pan pit lp del spat px py mind maxd cb t))
               (snap\<lparr>p_handle := nextInstanceHandle t\<rparr>))"
proof -
  have wf: "wellFormed s" unfolding s_def by (rule wf_reachable)
  have ini: "initialized s" unfolding s_def by (rule initialized_reachable)
  note hd = handlesD[OF wfD(2)[OF wf]]
  have wf1: "wellFormed s1" unfolding s1_def by (rule wf_playAudio[OF wf])
  have eq1: "s1 = (if pendingPlays s = []
        then s\<lparr>nextInstanceHandle := Suc h, pendingPlays := pendingPlays s @ [snap],
               timeouts := Suc (timeouts s)\<rparr>
        else s\<lparr>nextInstanceHandle := Suc h, pendingPlays := pendingPlays s @ [snap]\<rparr>)"
    unfolding s1_def playAudio_cases using ini unresolved by (simp add: h_def snap_def)
  have A1: "fst (playAudio sh bh vol pan pit lp del spat px py mind maxd cb s) = h"
    using ini unresolved by (simp add: playAudio_def Let_def h_def)
  have A2: "0 < h" using hd(1) by (simp add: h_def)
  have A3: "map_of (instances s) h = None"
    using hd(3)[of h] by (cases "map_of (instances s) h") (auto simp: h_def)
  have A4: "h \<notin> p_handle ` set (pendingPlays s)"
  proof
    assume "h \<in> p_handle ` set (pendingPlays s)"
    then obtain q where "q \<in> set (pendingPlays s)" "h = p_handle q" by auto
    with hd(5)[of q] show False by (simp add: h_def)
  qed
  have A5: "pendingPlays s1 = pendingPlays s @ [snap]" "instances s1 = instances s"
    "objs s1 = objs s"
    by (simp_all add: eq1)
  have pk: "parked s1 snap 0" by (simp add: parked_def A5 snap_def)
  have src1: "sources s1 (p_sourceHandle snap) = None" using unresolved by (simp add: eq1 snap_def)
  have hs: "p_handle snap = h" "p_sourceHandle snap = sh" by (simp_all add: snap_def)
  have B: "(count_list es TimeoutFired < 10 \<longrightarrow>
                parked (run es s1) snap (count_list es TimeoutFired)
              \<and> map_of (instances (run es s1)) h = None)
           \<and> (10 \<le> count_list es TimeoutFired \<longrightarrow>
                retired (run es s1) h
              \<and> (\<forall>es' e'. retired (run es' (run es s1)) h
                    \<and> finishedCallbacks (step e' (run es' (run es s1)))
                        \<noteq> finishedCallbacks (run es' (run es s1)) @ [h]))"
    if nd: "\<forall>e \<in> set es. \<forall>b d. e \<noteq> DecodeResolved sh b d" for es
  proof -
    have nd': "e \<noteq> DecodeResolved (p_sourceHandle snap) b d" if "e \<in> set es" for e b d
      using nd that by (simp add: hs)
    have z: "(0::nat) < 10" by simp
    note pr = parked_run[OF wf1 pk z src1 nd', unfolded hs]
    have "retired (run es' (run es s1)) h
                    \<and> finishedCallbacks (step e' (run es' (run es s1)))
                        \<noteq> finishedCallbacks (run es' (run es s1)) @ [h]"
      if "retired (run es s1) h" for es' e'
      by (rule retired_never_pushed[OF wf_run[OF wf1] that])
    then show ?thesis using pr by simp
  qed
  have C: "promoted (timeoutFired (run es s1)) (snap\<lparr>p_retries := k\<rparr>)
           \<and> isAudioPlaying (timeoutFired (run es s1)) h
           \<and> h \<notin> p_handle ` set (pendingPlays (timeoutFired (run es s1)))"
    if "parked (run es s1) snap k" "sources (run es s1) sh = Some src" for es k src
    using promotion[OF wf_run[OF wf1] that(1), of src] that(2) by (simp add: hs)
  have D: "promoted (snd (playAudio sh bh vol pan pit lp del spat px py mind maxd cb t))
               (snap\<lparr>p_handle := nextInstanceHandle t\<rparr>)"
    if "initialized t" "sources t sh = Some src" for t src
    unfolding playAudio_cases using that
    by (simp add: snap_def promoted_playInternal_self)
  show ?thesis using A1 A2 A3 A4 A5 B C D by blast
qed

text \<open>A play on the handle 7, which was never loaded, in the initial state returns the
  handle 1; after nine sweeps the request is parked with nine retries, after the tenth it
  is gone.\<close>

theorem deferred_play_witness:
  "sources init_engine 7 = None
   \<and> fst (playAudio 7 1 1 0 1 False 0 False 0 0 0 0 True init_engine) = 1
   \<and> parked (run [TimeoutFired, TimeoutFired, TimeoutFired, TimeoutFired, TimeoutFired,
                   TimeoutFired, TimeoutFired, TimeoutFired, TimeoutFired]
               (snd (playAudio 7 1 1 0 1 False 0 False 0 0 0 0 True init_engine)))
        \<lparr>p_handle = 1, p_sourceHandle = 7, p_busHandle = 1,
                  p_volume = 1, p_pan = 0, p_pitch = 1, p_loop = False, p_delay = 0,
                  p_isSpatial = False, p_posX = 0, p_posY = 0, p_minDistance = 0,
                  p_maxDistance = 0, p_hasCallback = True, p_retries = 0\<rparr> 9
   \<and> retired (run [TimeoutFired, TimeoutFired, TimeoutFired, TimeoutFired, TimeoutFired,
                   TimeoutFired, TimeoutFired, TimeoutFired, TimeoutFired, TimeoutFired]
               (snd (playAudio 7 1 1 0 1 False 0 False 0 0 0 0 True init_engine))) 1"
proof -
  have r0: "run [] init_engine = init_engine" by (simp add: run_def)
  have src: "sources init_engine 7 = None" by (simp add: init_engine_def)
  have nh: "nextInstanceHandle init_engine = 1" by (simp add: init_engine_def)
  note a = deferred_play[where ?es0.0 = "[]" and sh = 7 and bh = 1 and vol = 1 and pan = 0
      and pit = 1 and lp = False and del = 0 and spat = False and px = 0 and py = 0
      and mind = 0 and maxd = 0 and cb = True, unfolded r0 nh, OF src]
  have 1: "fst (playAudio 7 1 1 0 1 False 0 False 0 0 0 0 True init_engine) = 1"
    using a by blast
  let ?s1 = "snd (playAudio 7 1 1 0 1 False 0 False 0 0 0 0 True init_engine)"
  let ?snap = "\<lparr>p_handle = 1, p_sourceHandle = 7, p_busHandle = 1,
                  p_volume = 1, p_pan = 0, p_pitch = 1, p_loop = False, p_delay = 0,
                  p_isSpatial = False, p_posX = 0, p_posY = 0, p_minDistance = 0,
                  p_maxDistance = 0, p_hasCallback = True, p_retries = 0\<rparr>"
  have sw: "\<forall>es. (\<forall>e \<in> set es. \<forall>b d. e \<noteq> DecodeResolved 7 b d) \<longrightarrow>
             (count_list es TimeoutFired < 10 \<longrightarrow>
                parked (run es ?s1) ?snap (count_list es TimeoutFired)
              \<and> map_of (instances (run es ?s1)) 1 = None)
           \<and> (10 \<le> count_list es TimeoutFired \<longrightarrow>
                retired (run es ?s1) 1
              \<and> (\<forall>es' e'. retired (run es' (run es ?s1)) 1
                    \<and> finishedCallbacks (step e' (run es' (run es ?s1)))
                        \<noteq> finishedCallbacks (run es' (run es ?s1)) @ [1]))"
    using a by blast
  let ?L9 = "[TimeoutFired, TimeoutFired, TimeoutFired, TimeoutFired, TimeoutFired,
                   TimeoutFired, TimeoutFired, TimeoutFired, TimeoutFired]"
  have c9: "count_list ?L9 TimeoutFired = 9" by simp
  have c10: "count_list (TimeoutFired # ?L9) TimeoutFired = 10" by simp
  have nd: "\<forall>e \<in> set (TimeoutFired # ?L9). \<forall>b d. e \<noteq> DecodeResolved 7 b d" by simp
  have nd9: "\<forall>e \<in> set ?L9. \<forall>b d. e \<noteq> DecodeResolved 7 b d" by simp
  have 2: "parked (run ?L9 ?s1) ?snap 9"
    using sw[THEN spec, of ?L9, unfolded c9] nd9 by simp
  have 3: "retired (run (TimeoutFired # ?L9) ?s1) 1"
    using sw[THEN spec, of "TimeoutFired # ?L9", unfolded c10] nd by simp
  show ?thesis using src 1 2 3 by simp
qed

subsection \<open>The playback position\<close>

text \<open>
  C4, as amended. \<open>get_time\<close> returns 0 for an unknown handle, the pause offset while the
  instance is paused and 0 while it is stopped. For a playing instance whose source is
  registered it is the specified value for that source's duration: the elapsed time
  capped by the duration, or for a looping instance the remainder of the elapsed time by
  the duration (the remainder of \<open>%\<close>, which has the sign of the elapsed time). For a
  playing instance whose source is no longer registered it is the elapsed time itself,
  looping or not.
\<close>

theorem getAudioTime_cases:
  "(map_of (instances s) h = None \<longrightarrow> getAudioTime s h = Number 0)
   \<and> (\<forall>r. map_of (instances s) h = Some r \<longrightarrow>
        (paused (objs s r) \<longrightarrow> getAudioTime s h = Number (pauseTime (objs s r)))
      \<and> (\<not> paused (objs s r) \<and> stopped (objs s r) \<longrightarrow> getAudioTime s h = Number 0)
      \<and> (\<forall>src. sources s (sourceHandle (objs s r)) = Some src \<longrightarrow>
            getAudioTime s h = specified_time s h (duration src))
      \<and> (\<not> paused (objs s r) \<and> \<not> stopped (objs s r)
           \<and> sources s (sourceHandle (objs s r)) = None \<longrightarrow>
            getAudioTime s h = Number (currentTime s - startTime (objs s r))))"
  by (simp add: getAudioTime_def specified_time_def Let_def)

theorem getAudioTime_cases_witness:
  "map_of (instances orphaned) 1 = Some 0
   \<and> \<not> paused (objs orphaned 0) \<and> \<not> stopped (objs orphaned 0)
   \<and> sources orphaned (sourceHandle (objs orphaned 0)) = None
   \<and> getAudioTime orphaned 1 = Number 5
   \<and> sources playing (sourceHandle (objs playing 0)) = Some \<lparr>buffer = 0, duration = 2\<rparr>
   \<and> getAudioTime playing 1 = specified_time playing 1 2
   \<and> map_of (instances init_engine) 1 = None
   \<and> getAudioTime init_engine 1 = Number 0"
  using getAudioTime_cases[of orphaned 1] getAudioTime_cases[of playing 1]
    getAudioTime_cases[of init_engine 1] orphaned_facts playing_facts
  by (simp add: init_engine_def)

text \<open>The claim as stated fails for an instance whose source was destroyed: five seconds
  into the sample instance the engine reports 5, where the stated formula gives 0 with the
  duration the engine reports for the destroyed source, and 2 with the duration the
  source had.\<close>

theorem getAudioTime_orphaned_counterexample:
  "getAudioTime orphaned 1 = Number 5
   \<and> getAudioDuration orphaned 1 = 0
   \<and> specified_time orphaned 1 (getAudioDuration orphaned 1) = Number 0
   \<and> specified_time orphaned 1 2 = Number 2
   \<and> getAudioTime orphaned 1 \<noteq> specified_time orphaned 1 (getAudioDuration orphaned 1)
   \<and> getAudioTime orphaned 1 \<noteq> specified_time orphaned 1 2"
  using orphaned_facts playing_facts
  by (simp add: getAudioTime_def specified_time_def getAudioDuration_def)

subsection \<open>The rendering chain\<close>

text \<open>
  C5. \<open>playAudioInternal\<close>, which builds the chain for an immediate play and for a deferred
  one alike, registers the new instance under the request's handle with a new source
  node and a new gain node, and creates at most one panner: for a spatial request exactly
  one distance panner (linear model, the request's distances, rolloff 1, the request's
  position) and no stereo panner; for a request that is not spatial and has a pan other
  than 0 exactly one stereo panner with that pan and no distance panner; for a request that
  is not spatial and has pan 0 no panner at all, the source node being connected straight
  to the gain node.
\<close>

theorem panner_stage_exclusive:
  fixes params src s
  defines "s' \<equiv> playAudioInternal params src s"
      and "n \<equiv> nextNode s"
  defines "i \<equiv> objs s' (nextObj s)"
  shows "map_of (instances s') (p_handle params) = Some (nextObj s)
       \<and> sourceNode i = n \<and> gainNode i = Suc n
       \<and> nodeKind s' n = Some BufferSource \<and> nodeKind s' (Suc n) = Some Gain
       \<and> (p_isSpatial params \<longrightarrow>
            spatialPanner i = Some (n + 2) \<and> pannerNode i = None
          \<and> nodeKind s' (n + 2) = Some Panner \<and> nextNode s' = n + 3
          \<and> pn_distanceModel (pannerNodes s' (n + 2)) = ''linear''
          \<and> pn_refDistance (pannerNodes s' (n + 2)) = p_minDistance params
          \<and> pn_maxDistance (pannerNodes s' (n + 2)) = p_maxDistance params
          \<and> pn_rolloffFactor (pannerNodes s' (n + 2)) = 1
          \<and> pn_position (pannerNodes s' (n + 2)) = (p_posX params, p_posY params, 0)
          \<and> connections s' = connections s @
               [(n, n + 2), (n + 2, Suc n), (Suc n, outputNode i)])
       \<and> (\<not> p_isSpatial params \<and> p_pan params \<noteq> 0 \<longrightarrow>
            pannerNode i = Some (n + 2) \<and> spatialPanner i = None
          \<and> nodeKind s' (n + 2) = Some StereoPanner \<and> nextNode s' = n + 3
          \<and> panValue s' (n + 2) = p_pan params
          \<and> connections s' = connections s @
               [(n, n + 2), (n + 2, Suc n), (Suc n, outputNode i)])
       \<and> (\<not> p_isSpatial params \<and> p_pan params = 0 \<longrightarrow>
            pannerNode i = None \<and> spatialPanner i = None \<and> nextNode s' = n + 2
          \<and> connections s' = connections s @ [(n, Suc n), (Suc n, outputNode i)])"
  unfolding s'_def n_def i_def
  by (simp add: playAudioInternal_eq newInstance_def update_conv')

text \<open>A spatial request that also carries a pan of one half gets the distance panner
  only; the sample instance, with pan 0, got no panner.\<close>

theorem panner_stage_exclusive_witness:
  "p_isSpatial spatialParams
   \<and> spatialPanner (objs (playAudioInternal spatialParams \<lparr>buffer = 0, duration = 2\<rparr> loaded) 0)
       = Some 4
   \<and> pannerNode (objs (playAudioInternal spatialParams \<lparr>buffer = 0, duration = 2\<rparr> loaded) 0)
       = None
   \<and> connections (playAudioInternal spatialParams \<lparr>buffer = 0, duration = 2\<rparr> loaded)
       = [(1, 0), (2, 4), (4, 3), (3, 1)]"
  using panner_stage_exclusive[of spatialParams "\<lparr>buffer = 0, duration = 2\<rparr>" loaded]
  by (simp add: spatialParams_def loaded_eq init_engine_def playAudioInternal_eq
        newInstance_def outputFor_def)

subsection \<open>Bus mute\<close>

text \<open>
  C6. For an existing bus: muting sets the gain of the bus's node to 0 and leaves the
  stored volume as it was; muting and then unmuting sets the gain to the stored volume,
  with no volume call in between; a volume call on the muted bus stores the new volume
  and leaves every gain as it was, and the following unmute sets the gain to that volume.
\<close>

theorem bus_mute_round_trip:
  assumes "buses s b = Some bus0"
  shows "gainValue (setAudioBusMuted b True s) (b_gainNode bus0) = 0
       \<and> getAudioBusVolume (setAudioBusMuted b True s) b = b_volume bus0
       \<and> isAudioBusMuted (setAudioBusMuted b True s) b
       \<and> gainValue (setAudioBusMuted b False (setAudioBusMuted b True s)) (b_gainNode bus0)
           = b_volume bus0
       \<and> getAudioBusVolume (setAudioBusMuted b False (setAudioBusMuted b True s)) b
           = b_volume bus0
       \<and> \<not> isAudioBusMuted (setAudioBusMuted b False (setAudioBusMuted b True s)) b
       \<and> getAudioBusVolume (setAudioBusVolume b v (setAudioBusMuted b True s)) b = v
       \<and> gainValue (setAudioBusVolume b v (setAudioBusMuted b True s))
           = gainValue (setAudioBusMuted b True s)
       \<and> gainValue (setAudioBusMuted b False
            (setAudioBusVolume b v (setAudioBusMuted b True s))) (b_gainNode bus0) = v"
  using assms
  by (simp add: setAudioBusMuted_def setAudioBusVolume_def getAudioBusVolume_def
        isAudioBusMuted_def setGain_def)

text \<open>The master bus at volume one quarter.\<close>

theorem bus_mute_round_trip_witness:
  "buses (setAudioBusVolume 1 (1 / 4) init_engine) 1
     = Some \<lparr>b_gainNode = 1, b_volume = 1 / 4, b_muted = False\<rparr>
   \<and> gainValue (setAudioBusMuted 1 True (setAudioBusVolume 1 (1 / 4) init_engine)) 1 = 0
   \<and> gainValue (setAudioBusMuted 1 False
        (setAudioBusMuted 1 True (setAudioBusVolume 1 (1 / 4) init_engine))) 1 = 1 / 4"
proof -
  have b: "buses (setAudioBusVolume 1 (1 / 4) init_engine) 1
     = Some \<lparr>b_gainNode = 1, b_volume = 1 / 4, b_muted = False\<rparr>"
    by (simp add: setAudioBusVolume_def init_engine_def setGain_def)
  show ?thesis using bus_mute_round_trip[OF b, of 0] b by simp
qed

subsection \<open>Live control\<close>

text \<open>
  C7, as amended. On a known handle, \<open>set_volume\<close>, \<open>set_pitch\<close> and \<open>set_looping\<close> store the
  value in the instance entry and write it to the instance's gain node or source node.
  \<open>set_pan\<close> and \<open>set_position\<close> store nothing in the entry: \<open>set_pan\<close> writes the value to the
  instance's stereo panner when it has one and otherwise changes nothing at all, and
  \<open>set_position\<close> writes the coordinates to the instance's distance panner when it has one
  and otherwise changes nothing at all. On an unknown handle all five change nothing.
\<close>

theorem live_control:
  "(\<forall>r. map_of (instances s) h = Some r \<longrightarrow>
         volume (objs (setAudioVolume h v s) r) = v
       \<and> gainValue (setAudioVolume h v s) (gainNode (objs s r)) = v
       \<and> pitch (objs (setAudioPitch h v s) r) = v
       \<and> n_playbackRate (sourceNodes (setAudioPitch h v s) (sourceNode (objs s r))) = v
       \<and> loop (objs (setAudioLooping h l s) r) = l
       \<and> n_loop (sourceNodes (setAudioLooping h l s) (sourceNode (objs s r))) = l
       \<and> objs (setAudioPan h v s) = objs s
       \<and> (\<forall>pn. pannerNode (objs s r) = Some pn \<longrightarrow> panValue (setAudioPan h v s) pn = v)
       \<and> (pannerNode (objs s r) = None \<longrightarrow> setAudioPan h v s = s)
       \<and> objs (setAudioPosition h x y s) = objs s
       \<and> (\<forall>sp. spatialPanner (objs s r) = Some sp \<longrightarrow>
             fst (pn_position (pannerNodes (setAudioPosition h x y s) sp)) = x
           \<and> fst (snd (pn_position (pannerNodes (setAudioPosition h x y s) sp))) = y)
       \<and> (spatialPanner (objs s r) = None \<longrightarrow> setAudioPosition h x y s = s))
   \<and> (map_of (instances s) h = None \<longrightarrow>
         setAudioVolume h v s = s \<and> setAudioPan h v s = s \<and> setAudioPitch h v s = s
       \<and> setAudioLooping h l s = s \<and> setAudioPosition h x y s = s)"
  by (simp add: setAudioVolume_def setAudioPan_def setAudioPitch_def setAudioLooping_def
        setAudioPosition_def host_defs split: option.splits)

theorem live_control_witness:
  "map_of (instances playing) 1 = Some 0
   \<and> volume (objs (setAudioVolume 1 (1 / 3) playing) 0) = 1 / 3
   \<and> pannerNode (objs playing 0) = None
   \<and> setAudioPan 1 (1 / 2) playing = playing
   \<and> map_of (instances playing) 2 = None
   \<and> setAudioPitch 2 2 playing = playing"
  using live_control[of playing 1 "1 / 3" False 0 0] live_control[of playing 1 "1 / 2" False 0 0]
    live_control[of playing 2 2 False 0 0] playing_facts
  by simp

text \<open>The claim as stated fails: on the sample instance, which is not spatial, \<open>set_pan\<close>
  changes neither the entry nor any node.\<close>

theorem set_pan_counterexample:
  "map_of (instances playing) 1 = Some 0
   \<and> spatialPanner (objs playing 0) = None
   \<and> setAudioPan 1 (1 / 2) playing = playing"
  using playing_facts by (simp add: setAudioPan_def)

subsection \<open>Unknown handles\<close>

text \<open>
  C8, as amended. For a handle absent from its registry, each operation that addresses
  one object by its handle leaves the whole engine as it was (destroying a source;
  stopping, pausing, resuming an instance and its five setters; destroying a bus, setting
  its volume or its mute flag), and each query returns its default: 0 for \<open>get_time\<close> and
  the duration, false for \<open>is_playing\<close>, \<open>is_paused\<close> and \<open>is_bus_muted\<close>, 1 for the bus volume.
\<close>

theorem unknown_handle:
  "(sources s sh = None \<longrightarrow> destroyAudio sh s = s \<and> getAudioDuration s sh = 0) \<and>
   (map_of (instances s) h = None \<longrightarrow>
      stopAudio h s = s \<and> pauseAudio h s = s \<and> resumeAudio h s = s \<and>
      setAudioVolume h v s = s \<and> setAudioPan h v s = s \<and> setAudioPitch h v s = s \<and>
      setAudioLooping h l s = s \<and> setAudioPosition h x y s = s \<and>
      getAudioTime s h = Number 0 \<and> \<not> isAudioPlaying s h \<and> \<not> isAudioPaused s h) \<and>
   (buses s bh = None \<longrightarrow>
      destroyAudioBus bh s = s \<and> setAudioBusVolume bh v s = s \<and>
      setAudioBusMuted bh m s = s \<and>
      getAudioBusVolume s bh = 1 \<and> \<not> isAudioBusMuted s bh)"
  by (simp add: fun_upd_idem destroyAudio_def getAudioDuration_def stopAudio_def pauseAudio_def
      resumeAudio_def setAudioVolume_def setAudioPan_def setAudioPitch_def setAudioLooping_def
      setAudioPosition_def getAudioTime_def isAudioPlaying_def isAudioPaused_def
      destroyAudioBus_def setAudioBusVolume_def setAudioBusMuted_def getAudioBusVolume_def
      isAudioBusMuted_def)

theorem unknown_handle_witness:
  "sources playing 7 = None \<and> destroyAudio 7 playing = playing
   \<and> map_of (instances playing) 7 = None \<and> stopAudio 7 playing = playing
   \<and> buses playing 7 = None \<and> setAudioBusMuted 7 True playing = playing
   \<and> getAudioBusVolume playing 7 = 1"
proof -
  have a: "sources playing 7 = None" "map_of (instances playing) 7 = None"
    "buses playing 7 = None"
    by (simp_all add: playing_def playAudio_def playAudioInternal_eq loaded_eq init_engine_def
        Let_def)
  show ?thesis using unknown_handle[of playing 7 7 0 False 0 0 7 True] a by simp
qed

text \<open>The claim as stated fails for \<open>play\<close>, which is a mutating operation on a source
  handle: with a source handle that is not in the registry it allocates an instance
  handle and parks the request.\<close>

theorem play_unknown_source_counterexample:
  "sources init_engine 7 = None
   \<and> fst (playAudio 7 1 1 0 1 False 0 False 0 0 0 0 False init_engine) = 1
   \<and> length (pendingPlays (snd (playAudio 7 1 1 0 1 False 0 False 0 0 0 0 False init_engine)))
       = 1
   \<and> snd (playAudio 7 1 1 0 1 False 0 False 0 0 0 0 False init_engine) \<noteq> init_engine"
proof -
  let ?s = "snd (playAudio 7 1 1 0 1 False 0 False 0 0 0 0 False init_engine)"
  have a: "sources init_engine 7 = None" by (simp add: init_engine_def)
  have b: "fst (playAudio 7 1 1 0 1 False 0 False 0 0 0 0 False init_engine) = 1"
    by (simp add: playAudio_def init_engine_def Let_def)
  have c: "length (pendingPlays ?s) = 1"
    by (simp add: playAudio_def init_engine_def Let_def)
  have d: "pendingPlays init_engine = []" by (simp add: init_engine_def)
  have "?s \<noteq> init_engine" using c d by auto
  then show ?thesis using a b c by simp
qed

subsection \<open>The delay window\<close>

text \<open>
  C9, as amended. \<open>play\<close> with a delay \<open>del > 0\<close> on a registered source creates an instance
  whose start time is the clock plus \<open>del\<close>. While the clock has not reached the start
  time, \<open>get_time\<close> on an instance that does not loop returns the elapsed time capped by the
  duration, which is negative; on a looping instance it returns the remainder of the
  (negative) elapsed time by the duration, which is never positive and is 0 exactly when
  the elapsed time is a whole multiple of the duration.
\<close>

theorem delayed_play_time:
  fixes s :: engine and sh bh :: nat and vol pan pit del px py mind maxd dt :: real
    and lp spat cb :: bool
  assumes "initialized s" "sources s sh = Some src" "0 < del" "0 \<le> dt" "dt < del"
  defines "res \<equiv> playAudio sh bh vol pan pit lp del spat px py mind maxd cb s"
  defines "s' \<equiv> clockAdvanced dt (snd res)"
  shows "fst res = nextInstanceHandle s
       \<and> map_of (instances (snd res)) (fst res) = Some (nextObj s)
       \<and> startTime (objs (snd res) (nextObj s)) = currentTime s + del
       \<and> currentTime s' < startTime (objs s' (nextObj s))
       \<and> (\<not> lp \<longrightarrow> getAudioTime s' (fst res) = Number (min (dt - del) (duration src))
                 \<and> min (dt - del) (duration src) < 0)
       \<and> (lp \<longrightarrow> getAudioTime s' (fst res) = js_rem (dt - del) (duration src))
       \<and> (lp \<and> duration src \<noteq> 0 \<longrightarrow>
             (\<exists>y. getAudioTime s' (fst res) = Number y \<and> y \<le> 0
                  \<and> (y = 0 \<longleftrightarrow> (\<exists>k::int. dt - del = duration src * of_int k))))"
proof -
  have A: "fst res = nextInstanceHandle s"
    "map_of (instances (snd res)) (fst res) = Some (nextObj s)"
    "startTime (objs (snd res) (nextObj s)) = currentTime s + del"
    "currentTime s' < startTime (objs s' (nextObj s))"
    using assms(1-5) unfolding res_def s'_def
    by (simp_all add: playAudio_def playAudioInternal_eq newInstance_def Let_def update_conv'
          clockAdvanced_def)
  have B: "getAudioTime s' (fst res) =
      (if lp then js_rem (dt - del) (duration src) else Number (min (dt - del) (duration src)))"
    using assms(1-5) unfolding res_def s'_def
    by (simp add: playAudio_def playAudioInternal_eq newInstance_def Let_def update_conv'
          clockAdvanced_def getAudioTime_def)
  have C: "min (dt - del) (duration src) < 0" using assms(5) by simp
  have D: "\<exists>y. js_rem (dt - del) (duration src) = Number y \<and> y \<le> 0
                  \<and> (y = 0 \<longleftrightarrow> (\<exists>k::int. dt - del = duration src * of_int k))"
    if "duration src \<noteq> 0"
    using js_rem_neg[of "dt - del" "duration src"] assms(5) that by simp
  show ?thesis
  proof (cases lp)
    case True
    then show ?thesis using A B D by simp
  next
    case False
    then show ?thesis using A B C by simp
  qed
qed

text \<open>A delay of one second on the sample source, queried at once and half a second
  later.\<close>

theorem delayed_play_time_witness:
  "initialized loaded \<and> sources loaded 1 = Some \<lparr>buffer = 0, duration = 2\<rparr>
   \<and> getAudioTime (snd (playAudio 1 1 1 0 1 False 1 False 0 0 0 0 False loaded)) 1
       = Number (- 1)
   \<and> getAudioTime (clockAdvanced (1 / 2)
        (snd (playAudio 1 1 1 0 1 False 1 False 0 0 0 0 False loaded))) 1 = Number (- (1 / 2))"
proof -
  have a: "initialized loaded" "sources loaded 1 = Some \<lparr>buffer = 0, duration = 2\<rparr>"
    by (simp_all add: loaded_eq init_engine_def)
  have n: "nextInstanceHandle loaded = 1" by (simp add: loaded_eq init_engine_def)
  have z: "clockAdvanced 0 t = t" for t by (simp add: clockAdvanced_def)
  have "getAudioTime (clockAdvanced 0
        (snd (playAudio 1 1 1 0 1 False 1 False 0 0 0 0 False loaded))) 1 = Number (- 1)"
    using delayed_play_time[OF a, of 1 0 1 1 0 1 False False 0 0 0 0 False] n by auto
  moreover have "getAudioTime (clockAdvanced (1 / 2)
        (snd (playAudio 1 1 1 0 1 False 1 False 0 0 0 0 False loaded))) 1 = Number (- (1 / 2))"
    using delayed_play_time[OF a, of 1 "1 / 2" 1 1 0 1 False False 0 0 0 0 False] n by auto
  ultimately show ?thesis using a z by simp
qed

text \<open>The claim as stated fails for a looping instance: started with a delay of two
  seconds on the two-second source and queried at once, before its start time, it reports
  0.\<close>

theorem delayed_loop_counterexample:
  "currentTime delayedLoop < startTime (objs delayedLoop 0)
   \<and> map_of (instances delayedLoop) 1 = Some 0
   \<and> getAudioTime delayedLoop 1 = Number 0"
  using delayedLoop_facts
  by (simp add: getAudioTime_def js_rem_def js_trunc_def)

subsection \<open>A paused instance whose source is destroyed\<close>

text \<open>
  C10. In a state reached by a run of the engine an instance is paused, and its source is
  destroyed. Then through every later run without a stop of that instance and without a
  stop-all for every bus or for its bus, a resume of the instance changes nothing, the
  instance is in the table and paused, not playing, and \<open>get_time\<close> returns the pause
  offset it had. A stop of the instance, a stop-all for every bus and a stop-all for its bus
  each remove the entry.
\<close>

theorem paused_instance_stranded:
  fixes es0 :: "event list"
  defines "s \<equiv> run es0 init_engine"
  assumes tbl: "map_of (instances s) h = Some r" and pa: "paused (objs s r)"
  defines "s1 \<equiv> destroyAudio (sourceHandle (objs s r)) s"
  shows "\<forall>es. (\<forall>e \<in> set es. e \<noteq> Stop h \<and> e \<noteq> StopAll 0 \<and> e \<noteq> StopAll (busHandle (objs s r))) \<longrightarrow>
           resumeAudio h (run es s1) = run es s1
         \<and> isAudioPaused (run es s1) h \<and> \<not> isAudioPlaying (run es s1) h
         \<and> getAudioTime (run es s1) h = Number (pauseTime (objs s r))
         \<and> map_of (instances (run es s1)) h = Some r
         \<and> map_of (instances (stopAudio h (run es s1))) h = None
         \<and> map_of (instances (stopAllAudio 0 (run es s1))) h = None
         \<and> map_of (instances (stopAllAudio (busHandle (objs s r)) (run es s1))) h = None"
proof (intro allI impI)
  fix es
  assume ok: "\<forall>e \<in> set es. e \<noteq> Stop h \<and> e \<noteq> StopAll 0 \<and> e \<noteq> StopAll (busHandle (objs s r))"
  have wf: "wellFormed s" unfolding s_def by (rule wf_reachable)
  have wf1: "wellFormed s1" unfolding s1_def by (rule wf_destroyAudio[OF wf])
  let ?sh = "sourceHandle (objs s r)"
  let ?b = "busHandle (objs s r)"
  let ?c = "pauseTime (objs s r)"
  have st1: "stranded s1 h r ?c ?sh ?b"
    using tbl pa sourcesD(1,2)[OF wfD(4)[OF wf] tbl]
    by (simp add: stranded_def s1_def destroyAudio_def)
  have st: "stranded (run es s1) h r ?c ?sh ?b"
    by (rule stranded_run[OF wf1 st1]) (use ok in simp)
  let ?s = "run es s1"
  have 1: "resumeAudio h ?s = ?s" using st by (simp add: stranded_def resumeAudio_cases)
  have 2: "isAudioPaused ?s h" "\<not> isAudioPlaying ?s h" "getAudioTime ?s h = Number ?c"
    "map_of (instances ?s) h = Some r"
    using st by (simp_all add: stranded_def isAudioPaused_def isAudioPlaying_def getAudioTime_def)
  have 3: "map_of (instances (stopAudio h ?s)) h = None"
    using 2(4) by (simp add: stopAudio_cases delete_conv')
  have b: "busHandle (objs ?s r) = ?b" using st by (simp add: stranded_def)
  have 4: "map_of (instances (stopAllAudio 0 ?s)) h = None"
    by (rule stopAllAudio_removes[OF 2(4)]) simp
  have 5: "map_of (instances (stopAllAudio ?b ?s)) h = None"
    by (rule stopAllAudio_removes[OF 2(4)]) (simp add: b)
  show "resumeAudio h ?s = ?s
         \<and> isAudioPaused ?s h \<and> \<not> isAudioPlaying ?s h
         \<and> getAudioTime ?s h = Number ?c
         \<and> map_of (instances ?s) h = Some r
         \<and> map_of (instances (stopAudio h ?s)) h = None
         \<and> map_of (instances (stopAllAudio 0 ?s)) h = None
         \<and> map_of (instances (stopAllAudio ?b ?s)) h = None"
    using 1 2 3 4 5 by simp
qed

text \<open>The sample instance is paused after a second and its source destroyed: after a
  resume, three more seconds and a retry sweep it is still paused at one second, and a
  stop removes it.\<close>

theorem paused_instance_stranded_witness:
  "map_of (instances pausedOne) 1 = Some 0 \<and> paused (objs pausedOne 0)
   \<and> resumeAudio 1 (run [Resume 1, ClockAdvanced 3, TimeoutFired] (destroyAudio 1 pausedOne))
        = run [Resume 1, ClockAdvanced 3, TimeoutFired] (destroyAudio 1 pausedOne)
   \<and> isAudioPaused (run [Resume 1, ClockAdvanced 3, TimeoutFired] (destroyAudio 1 pausedOne)) 1
   \<and> getAudioTime (run [Resume 1, ClockAdvanced 3, TimeoutFired] (destroyAudio 1 pausedOne)) 1
        = Number 1
   \<and> map_of (instances (stopAudio 1
        (run [Resume 1, ClockAdvanced 3, TimeoutFired] (destroyAudio 1 pausedOne)))) 1 = None"
proof -
  note a = paused_instance_stranded[where
      ?es0.0 = "[Load, DecodeResolved 1 0 2, Play 1 1 1 0 1 False 0 False 0 0 0 0 True,
        ClockAdvanced 1, Pause 1]" and h = 1 and r = 0,
      unfolded playing_run, OF pausedOne_facts(1) pausedOne_facts(2),
      unfolded pausedOne_facts(3,4,5), THEN spec, of "[Resume 1, ClockAdvanced 3, TimeoutFired]"]
  show ?thesis using a pausedOne_facts(1,2) by simp
qed

end
